theory Spec2Isabelle
  imports Main "HOL-Library.Product_Lexorder"
begin

section \<open>Python strings\<close>

text \<open>
  A Python \<open>str\<close> is modelled as a \<open>string\<close>. The library functions below follow
  CPython's \<open>str\<close> methods and \<open>urllib.parse\<close> on ASCII text; where the library consults
  Unicode tables (white space and case mapping beyond ASCII, the UTF-8 decoding of
  percent-escapes of bytes above 0x7F) a character stands for itself.
\<close>

definition isspace :: "char \<Rightarrow> bool" where
  "isspace c \<longleftrightarrow>
     c \<in> set [CHR 0x09, CHR 0x0A, CHR 0x0B, CHR 0x0C, CHR 0x0D,
               CHR 0x1C, CHR 0x1D, CHR 0x1E, CHR 0x1F, CHR '' '']"

definition lstrip :: "string \<Rightarrow> string" where
  "lstrip s = dropWhile isspace s"

definition rstrip :: "string \<Rightarrow> string" where
  "rstrip s = rev (dropWhile isspace (rev s))"

definition strip :: "string \<Rightarrow> string" where
  "strip s = rstrip (lstrip s)"

definition rstrip_chars :: "string \<Rightarrow> string \<Rightarrow> string" where
  "rstrip_chars cs s = rev (dropWhile (\<lambda>c. c \<in> set cs) (rev s))"

definition upper_letters :: string where
  "upper_letters = ''ABCDEFGHIJKLMNOPQRSTUVWXYZ''"

definition lower_letters :: string where
  "lower_letters = ''abcdefghijklmnopqrstuvwxyz''"

definition lower_char :: "char \<Rightarrow> char" where
  "lower_char c = (case map_of (zip upper_letters lower_letters) c of Some d \<Rightarrow> d | None \<Rightarrow> c)"

definition lower :: "string \<Rightarrow> string" where
  "lower s = map lower_char s"

fun startswith :: "string \<Rightarrow> string \<Rightarrow> bool" where
  "startswith [] s = True"
| "startswith (p # ps) [] = False"
| "startswith (p # ps) (c # cs) = (p = c \<and> startswith ps cs)"

definition endswith :: "string \<Rightarrow> string \<Rightarrow> bool" where
  "endswith suffix s = startswith (rev suffix) (rev s)"

text \<open>\<open>sub in s\<close>.\<close>

fun contains :: "string \<Rightarrow> string \<Rightarrow> bool" where
  "contains sub [] = (sub = [])"
| "contains sub (c # cs) = (startswith sub (c # cs) \<or> contains sub cs)"

text \<open>\<open>s.find(sub)\<close>, with \<open>None\<close> for Python's \<open>-1\<close>.\<close>

fun find_first :: "string \<Rightarrow> string \<Rightarrow> nat option" where
  "find_first sub [] = (if sub = [] then Some 0 else None)"
| "find_first sub (c # cs) =
     (if startswith sub (c # cs) then Some 0 else map_option Suc (find_first sub cs))"

text \<open>\<open>s.find(sub, start)\<close> for a start that is not negative.\<close>

definition find_from :: "string \<Rightarrow> string \<Rightarrow> nat \<Rightarrow> nat option" where
  "find_from s sub start =
     (if length s < start then None
      else map_option (\<lambda>i. start + i) (find_first sub (drop start s)))"

text \<open>\<open>s.split(sep)\<close> for a separator of one character: never the empty list.\<close>

fun split_on :: "char \<Rightarrow> string \<Rightarrow> string list" where
  "split_on sep [] = [[]]"
| "split_on sep (c # cs) =
     (case split_on sep cs of
        [] \<Rightarrow> [[c]]
      | w # ws \<Rightarrow> if c = sep then [] # w # ws else (c # w) # ws)"

text \<open>\<open>s.split(sep, 1)\<close>: the parts before and after the first separator, if there is one.\<close>

definition split_once :: "char \<Rightarrow> string \<Rightarrow> string \<times> string option" where
  "split_once sep s =
     (let a = takeWhile (\<lambda>c. c \<noteq> sep) s; b = dropWhile (\<lambda>c. c \<noteq> sep) s
      in (a, if b = [] then None else Some (tl b)))"

definition join :: "string \<Rightarrow> string list \<Rightarrow> string" where
  "join sep ws = (case ws of [] \<Rightarrow> [] | w # rest \<Rightarrow> w @ concat (map (\<lambda>v. sep @ v) rest))"

section \<open>The model of urllib.parse\<close>

text \<open>
  The functions of \<open>urllib.parse\<close> that the program calls, as CPython 3.11 defines them.
\<close>

subsection \<open>unquote\<close>

definition hex_digit :: "char \<Rightarrow> (bool \<times> bool \<times> bool \<times> bool) option" where
  "hex_digit c = map_of
     [(CHR ''0'', (False, False, False, False)), (CHR ''1'', (True, False, False, False)),
      (CHR ''2'', (False, True, False, False)), (CHR ''3'', (True, True, False, False)),
      (CHR ''4'', (False, False, True, False)), (CHR ''5'', (True, False, True, False)),
      (CHR ''6'', (False, True, True, False)), (CHR ''7'', (True, True, True, False)),
      (CHR ''8'', (False, False, False, True)), (CHR ''9'', (True, False, False, True)),
      (CHR ''a'', (False, True, False, True)), (CHR ''b'', (True, True, False, True)),
      (CHR ''c'', (False, False, True, True)), (CHR ''d'', (True, False, True, True)),
      (CHR ''e'', (False, True, True, True)), (CHR ''f'', (True, True, True, True)),
      (CHR ''A'', (False, True, False, True)), (CHR ''B'', (True, True, False, True)),
      (CHR ''C'', (False, False, True, True)), (CHR ''D'', (True, False, True, True)),
      (CHR ''E'', (False, True, True, True)), (CHR ''F'', (True, True, True, True))] c"

text \<open>
  \<open>unquote\<close> replaces every \<open>%XX\<close> with two hexadecimal digits by the character of that
  code and leaves any other \<open>%\<close> in place. The four bits of a digit are listed from the
  least significant one.
\<close>

fun unquote :: "string \<Rightarrow> string" where
  "unquote [] = []"
| "unquote (c # cs) =
     (if c = CHR ''%'' then
        (case cs of
           a # b # rest \<Rightarrow>
             (case (hex_digit a, hex_digit b) of
                (Some (h0, h1, h2, h3), Some (l0, l1, l2, l3)) \<Rightarrow>
                  Char l0 l1 l2 l3 h0 h1 h2 h3 # unquote rest
              | _ \<Rightarrow> c # unquote cs)
         | _ \<Rightarrow> c # unquote cs)
      else c # unquote cs)"

subsection \<open>urlsplit, urlparse, urlunparse\<close>

datatype py_exception = ValueError | OtherException string | KeyboardInterrupt | SystemExit

record parse_result =
  scheme :: string
  netloc :: string
  path :: string
  params :: string
  query :: string
  fragment :: string

definition scheme_chars :: string where
  "scheme_chars =
     ''abcdefghijklmnopqrstuvwxyzABCDEFGHIJKLMNOPQRSTUVWXYZ0123456789+-.''"

definition uses_params :: "string list" where
  "uses_params = ['''', ''ftp'', ''hdl'', ''prospero'', ''http'', ''imap'', ''https'',
     ''shttp'', ''rtsp'', ''rtsps'', ''rtspu'', ''sip'', ''sips'', ''mms'', ''sftp'', ''tel'']"

definition uses_netloc :: "string list" where
  "uses_netloc = ['''', ''ftp'', ''http'', ''gopher'', ''nntp'', ''telnet'', ''imap'',
     ''wais'', ''file'', ''mms'', ''https'', ''shttp'', ''snews'', ''prospero'', ''rtsp'',
     ''rtsps'', ''rtspu'', ''rsync'', ''svn'', ''svn+ssh'', ''sftp'', ''nfs'', ''git'',
     ''git+ssh'', ''ws'', ''wss'']"

definition uses_relative :: "string list" where
  "uses_relative = ['''', ''ftp'', ''http'', ''gopher'', ''nntp'', ''imap'', ''wais'',
     ''file'', ''https'', ''shttp'', ''mms'', ''prospero'', ''rtsp'', ''rtsps'', ''rtspu'',
     ''sftp'', ''svn'', ''svn+ssh'', ''ws'', ''wss'']"

text \<open>The characters \<open>urlsplit\<close> strips from the front (C0 controls and the space).\<close>

definition c0_control_or_space :: "char \<Rightarrow> bool" where
  "c0_control_or_space c \<longleftrightarrow> (of_char c :: nat) \<le> 32"

definition unsafe_url_byte :: "char \<Rightarrow> bool" where
  "unsafe_url_byte c \<longleftrightarrow> c \<in> set [CHR 0x09, CHR 0x0D, CHR 0x0A]"

text \<open>
  The scheme of a URL: the text before the first colon, when that text is not empty,
  starts with an ASCII letter and has scheme characters only. The result is the scheme
  in lower case and the text after the colon.
\<close>

definition split_scheme :: "string \<Rightarrow> (string \<times> string) option" where
  "split_scheme url =
     (let s = takeWhile (\<lambda>c. c \<noteq> CHR '':'') url; r = dropWhile (\<lambda>c. c \<noteq> CHR '':'') url
      in if r \<noteq> [] \<and> s \<noteq> [] \<and> hd s \<in> set (take 52 scheme_chars)
            \<and> list_all (\<lambda>c. c \<in> set scheme_chars) s
         then Some (lower s, tl r) else None)"

definition netloc_delim :: "char \<Rightarrow> bool" where
  "netloc_delim c \<longleftrightarrow> c \<in> set ''/?#''"

text \<open>
  \<open>urlsplit(url, scheme)\<close>. It raises \<open>ValueError\<close> when the brackets of the netloc do not
  match. The checks of the text between matching brackets and of the NFKC form of a
  netloc outside ASCII are not part of the model.
\<close>

definition urlsplit :: "string \<Rightarrow> string \<Rightarrow> py_exception + parse_result" where
  "urlsplit url0 scheme0 =
     (let url = filter (\<lambda>c. \<not> unsafe_url_byte c) (dropWhile c0_control_or_space url0);
          (scheme1, url1) = (case split_scheme url of Some (s, r) \<Rightarrow> (s, r)
                             | None \<Rightarrow> (scheme0, url));
          (netloc1, url2) = (if take 2 url1 = ''//''
                             then (takeWhile (\<lambda>c. \<not> netloc_delim c) (drop 2 url1),
                                   dropWhile (\<lambda>c. \<not> netloc_delim c) (drop 2 url1))
                             else ('''', url1))
      in if (CHR ''['' \<in> set netloc1) \<noteq> (CHR '']'' \<in> set netloc1) then Inl ValueError
         else
           let (url3, fragment1) = (case split_once CHR ''#'' url2 of
                                      (a, Some b) \<Rightarrow> (a, b) | (a, None) \<Rightarrow> (a, ''''));
               (url4, query1) = (case split_once CHR ''?'' url3 of
                                      (a, Some b) \<Rightarrow> (a, b) | (a, None) \<Rightarrow> (a, ''''))
           in Inr \<lparr>scheme = scheme1, netloc = netloc1, path = url4, params = '''',
                   query = query1, fragment = fragment1\<rparr>)"

text \<open>
  \<open>_splitparams\<close>: the parameters start at the first semicolon of the last path segment.
\<close>

definition splitparams :: "string \<Rightarrow> string \<times> string" where
  "splitparams url =
     (let last_seg = rev (takeWhile (\<lambda>c. c \<noteq> CHR ''/'') (rev url));
          before = take (length url - length last_seg) url
      in case split_once CHR '';'' last_seg of
           (a, Some b) \<Rightarrow> (before @ a, b)
         | (a, None) \<Rightarrow> (url, ''''))"

definition urlparse :: "string \<Rightarrow> string \<Rightarrow> py_exception + parse_result" where
  "urlparse url scheme0 =
     (case urlsplit url scheme0 of
        Inl e \<Rightarrow> Inl e
      | Inr r \<Rightarrow>
          if scheme r \<in> set uses_params \<and> CHR '';'' \<in> set (path r)
          then (let (p, ps) = splitparams (path r) in Inr (r\<lparr>path := p, params := ps\<rparr>))
          else Inr r)"

definition urlunsplit :: "string \<Rightarrow> string \<Rightarrow> string \<Rightarrow> string \<Rightarrow> string \<Rightarrow> string" where
  "urlunsplit scheme0 netloc0 url0 query0 fragment0 =
     (let url1 = (if netloc0 \<noteq> [] \<or>
                     (scheme0 \<noteq> [] \<and> scheme0 \<in> set uses_netloc \<and> take 2 url0 \<noteq> ''//'')
                  then ''//'' @ netloc0 @
                       (if url0 \<noteq> [] \<and> take 1 url0 \<noteq> ''/'' then ''/'' @ url0 else url0)
                  else url0);
          url2 = (if scheme0 \<noteq> [] then scheme0 @ '':'' @ url1 else url1);
          url3 = (if query0 \<noteq> [] then url2 @ ''?'' @ query0 else url2)
      in if fragment0 \<noteq> [] then url3 @ ''#'' @ fragment0 else url3)"

definition urlunparse :: "parse_result \<Rightarrow> string" where
  "urlunparse r =
     urlunsplit (scheme r) (netloc r)
       (if params r \<noteq> [] then path r @ '';'' @ params r else path r)
       (query r) (fragment r)"

subsection \<open>parse_qs\<close>

definition plus_to_space :: "string \<Rightarrow> string" where
  "plus_to_space s = map (\<lambda>c. if c = CHR ''+'' then CHR '' '' else c) s"

text \<open>
  \<open>parse_qsl\<close> with its defaults: the fields are separated by \<open>&\<close>; a field with no
  \<open>=\<close> or with nothing after it is dropped; in names and values \<open>+\<close> is a space and
  percent-escapes are decoded.
\<close>

definition parse_qsl :: "string \<Rightarrow> (string \<times> string) list" where
  "parse_qsl qs =
     List.map_filter
       (\<lambda>name_value.
          case split_once CHR ''='' name_value of
            (n, Some v) \<Rightarrow>
              if v \<noteq> [] then Some (unquote (plus_to_space n), unquote (plus_to_space v))
              else None
          | (n, None) \<Rightarrow> None)
       (split_on CHR ''&'' qs)"

text \<open>\<open>parse_qs\<close>: the dictionary from each name to the list of its values, in order.\<close>

definition parse_qs :: "string \<Rightarrow> (string \<rightharpoonup> string list)" where
  "parse_qs qs name =
     (case map snd (filter (\<lambda>nv. fst nv = name) (parse_qsl qs)) of
        [] \<Rightarrow> None
      | v # vs \<Rightarrow> Some (v # vs))"

section \<open>The redirect-link parser\<close>

definition REDIRECT_PREFIX :: string where
  "REDIRECT_PREFIX = ''https://www.youtube.com/redirect''"

definition YOUTUBE_ORIGIN :: string where
  "YOUTUBE_ORIGIN = ''https://www.youtube.com''"

definition PROXY_PREFIX :: string where
  "PROXY_PREFIX = ''https://r.jina.ai/''"

text \<open>The inner loop of \<open>_iter_redirect_urls\<close>: the end of the candidate that starts at \<open>idx\<close>.\<close>

function scan_end :: "string \<Rightarrow> nat \<Rightarrow> nat" where
  "scan_end page_text e =
     (if e < length page_text \<and> \<not> isspace (page_text ! e) \<and> page_text ! e \<noteq> CHR '')''
      then scan_end page_text (Suc e) else e)"
  by pat_completeness auto
termination
  by (relation "measure (\<lambda>(t, e). length t - e)") auto

declare scan_end.simps [simp del]

lemma scan_end_ge: "e \<le> scan_end t e"
proof (induction t e rule: scan_end.induct)
  case (1 page_text e)
  show ?case
  proof (cases "e < length page_text \<and> \<not> isspace (page_text ! e) \<and> page_text ! e \<noteq> CHR '')''")
    case True
    then have "Suc e \<le> scan_end page_text (Suc e)" using 1 by simp
    also have "scan_end page_text (Suc e) = scan_end page_text e"
      using True by (subst (2) scan_end.simps) simp
    finally show ?thesis by simp
  next
    case False
    then show ?thesis by (subst scan_end.simps) auto
  qed
qed

lemma scan_end_le: "e \<le> length t \<Longrightarrow> scan_end t e \<le> length t"
proof (induction t e rule: scan_end.induct)
  case (1 page_text e)
  show ?case
  proof (cases "e < length page_text \<and> \<not> isspace (page_text ! e) \<and> page_text ! e \<noteq> CHR '')''")
    case True
    then have "scan_end page_text (Suc e) \<le> length page_text" using 1 by simp
    moreover have "scan_end page_text (Suc e) = scan_end page_text e"
      using True by (subst (2) scan_end.simps) simp
    ultimately show ?thesis by simp
  next
    case False
    then show ?thesis using "1.prems" by (subst scan_end.simps) auto
  qed
qed

lemma scan_end_takeWhile:
  "e \<le> length t \<Longrightarrow>
   scan_end t e = e + length (takeWhile (\<lambda>c. \<not> isspace c \<and> c \<noteq> CHR '')'') (drop e t))"
proof (induction t e rule: scan_end.induct)
  case (1 page_text e)
  show ?case
  proof (cases "e < length page_text")
    case False
    then show ?thesis using "1.prems" by (subst scan_end.simps) simp
  next
    case True
    then have d: "drop e page_text = page_text ! e # drop (Suc e) page_text"
      by (simp add: Cons_nth_drop_Suc)
    show ?thesis
    proof (cases "\<not> isspace (page_text ! e) \<and> page_text ! e \<noteq> CHR '')''")
      case False
      then show ?thesis using d by (subst scan_end.simps) auto
    next
      case ok: True
      have "scan_end page_text e = scan_end page_text (Suc e)"
        using True ok by (subst scan_end.simps) simp
      also have "\<dots> = Suc e + length (takeWhile (\<lambda>c. \<not> isspace c \<and> c \<noteq> CHR '')'') (drop (Suc e) page_text))"
        using 1 True ok by simp
      finally show ?thesis using d ok by simp
    qed
  qed
qed

lemma find_first_Some:
  "find_first sub s = Some i \<Longrightarrow> i \<le> length s \<and> startswith sub (drop i s)"
proof (induction s arbitrary: i)
  case Nil
  then show ?case by (auto split: if_splits)
next
  case (Cons c cs)
  then show ?case by (auto split: if_splits)
qed

lemma find_from_Some:
  "find_from s sub start = Some idx \<Longrightarrow>
   start \<le> idx \<and> idx \<le> length s \<and> startswith sub (drop idx s)"
  by (auto simp: find_from_def add.commute split: if_splits dest!: find_first_Some)

lemma startswith_append: "startswith p s \<longleftrightarrow> (\<exists>r. s = p @ r)"
  by (induction p s rule: startswith.induct) auto

lemma startswith_prefix_hd:
  "startswith REDIRECT_PREFIX s \<Longrightarrow> s \<noteq> [] \<and> hd s = CHR ''h''"
  by (cases s) (auto simp: REDIRECT_PREFIX_def)

text \<open>
  \<open>_iter_redirect_urls\<close>: the outer loop, from the position \<open>start\<close>. Every round ends
  beyond the occurrence it found, so the loop ends.
\<close>

function iter_redirect_urls_from :: "string \<Rightarrow> nat \<Rightarrow> string list" where
  "iter_redirect_urls_from page_text start =
     (case find_from page_text REDIRECT_PREFIX start of
        None \<Rightarrow> []
      | Some idx \<Rightarrow>
          (let e = scan_end page_text idx
           in take (e - idx) (drop idx page_text) # iter_redirect_urls_from page_text e))"
  by pat_completeness auto
termination
proof (relation "measure (\<lambda>(t, start). length t - start)")
  show "wf (measure (\<lambda>(t, start). length t - start))" by simp
next
  fix page_text :: string and start idx e :: nat
  assume f: "find_from page_text REDIRECT_PREFIX start = Some idx"
    and e: "e = scan_end page_text idx"
  from find_from_Some [OF f] have le: "start \<le> idx" "idx \<le> length page_text"
    and sw: "startswith REDIRECT_PREFIX (drop idx page_text)" by simp_all
  from startswith_prefix_hd [OF sw] have ne: "drop idx page_text \<noteq> []"
    and h: "hd (drop idx page_text) = CHR ''h''" by simp_all
  from ne have lt: "idx < length page_text" by simp
  then have "page_text ! idx = CHR ''h''" using h by (simp add: hd_drop_conv_nth)
  then have "scan_end page_text idx = scan_end page_text (Suc idx)"
    using lt by (subst scan_end.simps) (simp add: isspace_def)
  then have "idx < e" using scan_end_ge [of "Suc idx" page_text] e by simp
  moreover have "e \<le> length page_text" using scan_end_le [of idx page_text] le e by simp
  ultimately show "((page_text, e), (page_text, start)) \<in> measure (\<lambda>(t, start). length t - start)"
    using le by simp
qed

declare iter_redirect_urls_from.simps [simp del]

definition iter_redirect_urls :: "string \<Rightarrow> string list" where
  "iter_redirect_urls page_text = iter_redirect_urls_from page_text 0"

definition events_priority :: "string list" where
  "events_priority = [''channel_header'', ''channel_about_metadata'', ''channel_description'']"

text \<open>\<open>event_order\<close>: the dictionary from each event of the priority list to its index.\<close>

definition event_order :: "string \<rightharpoonup> nat" where
  "event_order = map_of (zip events_priority [0..<length events_priority])"

text \<open>The sort key of a candidate \<open>(event, dest, idx)\<close>.\<close>

definition sort_key_of :: "string \<times> string \<times> nat \<Rightarrow> nat \<times> nat" where
  "sort_key_of item =
     (case event_order (fst item) of Some r \<Rightarrow> r | None \<Rightarrow> length events_priority,
      snd (snd item))"

text \<open>
  The first loop of \<open>parse_channel_links\<close>, over the enumerated candidates: an exception
  of the library ends it.
\<close>

fun collect_structured ::
  "(nat \<times> string) list \<Rightarrow> py_exception + (string \<times> string \<times> nat) list" where
  "collect_structured [] = Inr []"
| "collect_structured ((idx, raw_url) # rest) =
     (case urlparse raw_url '''' of
        Inl exc \<Rightarrow> Inl exc
      | Inr parsed \<Rightarrow>
          (let params = parse_qs (query parsed) in
           case params ''q'' of
             None \<Rightarrow> collect_structured rest
           | Some [] \<Rightarrow> collect_structured rest
           | Some (target # _) \<Rightarrow>
               (let dest = unquote target in
                case (case params ''event'' of None \<Rightarrow> [''''] | Some es \<Rightarrow> es) of
                  [] \<Rightarrow> Inl (OtherException ''IndexError'')
                | event # _ \<Rightarrow>
                    (case collect_structured rest of
                       Inl exc \<Rightarrow> Inl exc
                     | Inr structured \<Rightarrow> Inr ((event, dest, idx) # structured)))))"

text \<open>The second loop: the destinations not seen before, in order.\<close>

fun dedupe ::
  "(string \<times> string \<times> nat) list \<Rightarrow> string list \<Rightarrow> string set \<Rightarrow> string list" where
  "dedupe [] links seen = links"
| "dedupe ((event, dest, idx) # rest) links seen =
     (if dest = [] \<or> dest \<in> seen then dedupe rest links seen
      else dedupe rest (links @ [dest]) (insert dest seen))"

definition parse_channel_links :: "string \<Rightarrow> py_exception + string list" where
  "parse_channel_links page_text =
     (case collect_structured (List.enumerate 0 (iter_redirect_urls page_text)) of
        Inl exc \<Rightarrow> Inl exc
      | Inr structured \<Rightarrow> Inr (dedupe (sort_key sort_key_of structured) [] {}))"

subsection \<open>The parser raises nothing\<close>

lemma isspace_simps:
  "isspace c \<longleftrightarrow> c = CHR 0x09 \<or> c = CHR 0x0A \<or> c = CHR 0x0B \<or> c = CHR 0x0C \<or> c = CHR 0x0D \<or>
               c = CHR 0x1C \<or> c = CHR 0x1D \<or> c = CHR 0x1E \<or> c = CHR 0x1F \<or> c = CHR '' ''"
  by (simp add: isspace_def)

lemma urlsplit_redirect_ok:
  "\<exists>r. urlsplit (REDIRECT_PREFIX @ rest) '''' = Inr r"
  by (simp add: urlsplit_def REDIRECT_PREFIX_def c0_control_or_space_def unsafe_url_byte_def
    split_scheme_def scheme_chars_def lower_def lower_char_def upper_letters_def lower_letters_def
    netloc_delim_def split_once_def Let_def split: prod.splits)

lemma urlparse_redirect_ok:
  assumes "startswith REDIRECT_PREFIX raw"
  shows "\<exists>r. urlparse raw '''' = Inr r"
proof -
  from assms obtain rest where "raw = REDIRECT_PREFIX @ rest"
    unfolding startswith_append by blast
  then obtain r where "urlsplit raw '''' = Inr r" using urlsplit_redirect_ok by blast
  then show ?thesis by (simp add: urlparse_def split: prod.splits)
qed

lemma candidate_startswith:
  assumes "startswith REDIRECT_PREFIX s"
  shows "startswith REDIRECT_PREFIX (takeWhile (\<lambda>c. \<not> isspace c \<and> c \<noteq> CHR '')'') s)"
proof -
  from assms obtain rest where s: "s = REDIRECT_PREFIX @ rest"
    unfolding startswith_append by blast
  show ?thesis unfolding s REDIRECT_PREFIX_def
    by (simp add: isspace_simps)
qed

lemma iter_redirect_urls_from_startswith:
  "raw \<in> set (iter_redirect_urls_from page_text start) \<Longrightarrow> startswith REDIRECT_PREFIX raw"
proof (induction page_text start rule: iter_redirect_urls_from.induct)
  case (1 page_text start)
  show ?case
  proof (cases "find_from page_text REDIRECT_PREFIX start")
    case None
    then show ?thesis using "1.prems" by (simp add: iter_redirect_urls_from.simps)
  next
    case (Some idx)
    from find_from_Some [OF Some] have le: "idx \<le> length page_text"
      and sw: "startswith REDIRECT_PREFIX (drop idx page_text)" by simp_all
    let ?e = "scan_end page_text idx"
    have cand: "take (?e - idx) (drop idx page_text) =
        takeWhile (\<lambda>c. \<not> isspace c \<and> c \<noteq> CHR '')'') (drop idx page_text)"
      using scan_end_takeWhile [OF le] takeWhile_eq_take [of "\<lambda>c. \<not> isspace c \<and> c \<noteq> CHR '')''" "drop idx page_text"]
      by simp
    from "1.prems" Some have "raw = take (?e - idx) (drop idx page_text) \<or>
        raw \<in> set (iter_redirect_urls_from page_text ?e)"
      by (subst (asm) iter_redirect_urls_from.simps) (simp add: Let_def)
    then show ?thesis
    proof
      assume "raw = take (?e - idx) (drop idx page_text)"
      then show ?thesis using cand candidate_startswith [OF sw] by simp
    next
      assume "raw \<in> set (iter_redirect_urls_from page_text ?e)"
      then show ?thesis using "1.IH" [OF Some refl] by simp
    qed
  qed
qed

lemma parse_qs_nonempty: "parse_qs qs name \<noteq> Some []"
  by (simp add: parse_qs_def split: list.splits)

lemma collect_structured_ok:
  "(\<And>i raw. (i, raw) \<in> set xs \<Longrightarrow> startswith REDIRECT_PREFIX raw) \<Longrightarrow>
   \<exists>s. collect_structured xs = Inr s"
proof (induction xs)
  case Nil
  then show ?case by simp
next
  case (Cons x xs)
  obtain idx raw where x: "x = (idx, raw)" by (cases x)
  from Cons.prems x obtain r where r: "urlparse raw '''' = Inr r"
    using urlparse_redirect_ok by fastforce
  from Cons obtain s where s: "collect_structured xs = Inr s" by fastforce
  show ?case using x r s parse_qs_nonempty [of "query r" "''event''"]
    by (auto simp: Let_def split: option.splits list.splits)
qed

lemma set_enumerate_snd: "(i, x) \<in> set (List.enumerate n xs) \<Longrightarrow> x \<in> set xs"
  by (auto simp: in_set_enumerate_eq)

lemma collect_total:
  "\<exists>s. collect_structured (List.enumerate 0 (iter_redirect_urls page_text)) = Inr s"
  by (rule collect_structured_ok)
     (auto simp: iter_redirect_urls_def dest!: set_enumerate_snd iter_redirect_urls_from_startswith)

subsection \<open>First occurrences in key order\<close>

text \<open>The elements of a list, each at the place of its first occurrence.\<close>

definition first_occurrences :: "'a list \<Rightarrow> 'a list" where
  "first_occurrences xs = rev (remdups (rev xs))"

definition dest_of :: "string \<times> string \<times> nat \<Rightarrow> string" where
  "dest_of item = fst (snd item)"

text \<open>The least sort key among the candidates of a destination.\<close>

definition best_key :: "(string \<times> string \<times> nat) list \<Rightarrow> string \<Rightarrow> nat \<times> nat" where
  "best_key structured dest =
     Min (set (map sort_key_of (filter (\<lambda>item. dest_of item = dest) structured)))"

lemma remdups_snoc: "remdups (ys @ [x]) = filter (\<lambda>y. y \<noteq> x) (remdups ys) @ [x]"
  by (induction ys) auto

lemma first_occurrences_Cons:
  "first_occurrences (x # xs) = x # first_occurrences (filter (\<lambda>y. y \<noteq> x) xs)"
  by (simp add: first_occurrences_def remdups_snoc rev_filter remdups_filter)

lemma first_occurrences_Nil: "first_occurrences [] = []"
  by (simp add: first_occurrences_def)

lemma first_occurrences_filter:
  "first_occurrences (filter P xs) = filter P (first_occurrences xs)"
  by (simp add: first_occurrences_def rev_filter remdups_filter)

lemma distinct_first_occurrences: "distinct (first_occurrences xs)"
  by (simp add: first_occurrences_def)

lemma set_first_occurrences: "set (first_occurrences xs) = set xs"
  by (simp add: first_occurrences_def)

lemma dedupe_eq:
  "dedupe cs links seen =
   links @ first_occurrences [d \<leftarrow> map dest_of cs. d \<noteq> [] \<and> d \<notin> seen]"
proof (induction cs arbitrary: links seen)
  case Nil
  then show ?case by (simp add: first_occurrences_Nil)
next
  case (Cons c cs)
  obtain event dest idx where c: "c = (event, dest, idx)" by (cases c)
  show ?case
  proof (cases "dest = [] \<or> dest \<in> seen")
    case True
    then show ?thesis using c Cons.IH [of links seen] by (auto simp: dest_of_def)
  next
    case False
    have f: "[y \<leftarrow> [d \<leftarrow> map dest_of cs. d \<noteq> [] \<and> d \<notin> seen]. y \<noteq> dest] =
             [d \<leftarrow> map dest_of cs. d \<noteq> [] \<and> d \<notin> insert dest seen]"
      by (simp add: conj_commute conj_left_commute)
    have "dedupe (c # cs) links seen = dedupe cs (links @ [dest]) (insert dest seen)"
      using False c by simp
    also have "\<dots> = (links @ [dest]) @
        first_occurrences [d \<leftarrow> map dest_of cs. d \<noteq> [] \<and> d \<notin> insert dest seen]"
      by (rule Cons.IH)
    also have "\<dots> = links @
        first_occurrences [d \<leftarrow> map dest_of (c # cs). d \<noteq> [] \<and> d \<notin> seen]"
      using False c f by (simp add: dest_of_def first_occurrences_Cons)
    finally show ?thesis .
  qed
qed

text \<open>On a list in strictly increasing key order, the first occurrences come in the order of
  the least keys.\<close>

lemma best_key_Cons_other:
  "dest_of c \<noteq> d \<Longrightarrow> best_key (c # cs) d = best_key cs d"
  by (simp add: best_key_def)

lemma best_key_Cons_other':
  "d \<noteq> dest_of c \<Longrightarrow> best_key (c # cs) d = best_key cs d"
  by (simp add: best_key_def)

lemma best_key_Cons_same:
  assumes "\<forall>x \<in> set cs. sort_key_of c < sort_key_of x"
  shows "best_key (c # cs) (dest_of c) = sort_key_of c"
proof -
  have "Min (insert (sort_key_of c) (sort_key_of ` {x \<in> set cs. dest_of x = dest_of c})) = sort_key_of c"
    by (rule Min_eqI) (use assms in \<open>auto simp: less_imp_le\<close>)
  then show ?thesis by (simp add: best_key_def)
qed

lemma best_key_mem:
  assumes "d \<in> dest_of ` set cs"
  shows "best_key cs d \<in> sort_key_of ` set cs"
proof -
  let ?A = "set (map sort_key_of (filter (\<lambda>item. dest_of item = d) cs))"
  have "?A \<noteq> {}" using assms by (auto simp: filter_empty_conv)
  then have "Min ?A \<in> ?A" by (intro Min_in) simp
  then show ?thesis unfolding best_key_def by auto
qed

lemma sorted_first_occurrences:
  assumes "sorted_wrt (<) (map sort_key_of cs)"
  shows "sorted_wrt (\<lambda>a b. best_key cs a < best_key cs b)
           (first_occurrences [d \<leftarrow> map dest_of cs. d \<noteq> []])"
  using assms
proof (induction cs)
  case Nil
  then show ?case by (simp add: first_occurrences_Nil)
next
  case (Cons c cs)
  let ?out = "first_occurrences [d \<leftarrow> map dest_of cs. d \<noteq> []]"
  from Cons.prems have lt: "\<forall>x \<in> set cs. sort_key_of c < sort_key_of x"
    and srt: "sorted_wrt (<) (map sort_key_of cs)" by auto
  have IH: "sorted_wrt (\<lambda>a b. best_key cs a < best_key cs b) ?out"
    using Cons.IH srt by simp
  have rest: "sorted_wrt (\<lambda>a b. best_key (c # cs) a < best_key (c # cs) b)
      [y \<leftarrow> ?out. y \<noteq> dest_of c]"
  proof (rule sorted_wrt_mono_rel [OF _ sorted_wrt_filter [OF IH]])
    fix a b
    assume "a \<in> set [y \<leftarrow> ?out. y \<noteq> dest_of c]" "b \<in> set [y \<leftarrow> ?out. y \<noteq> dest_of c]"
      and "best_key cs a < best_key cs b"
    then show "best_key (c # cs) a < best_key (c # cs) b"
      by (simp add: best_key_Cons_other')
  qed
  show ?case
  proof (cases "dest_of c = []")
    case True
    have "[y \<leftarrow> ?out. y \<noteq> dest_of c] = ?out"
      unfolding True by (rule filter_True) (simp add: set_first_occurrences)
    then show ?thesis using rest True by simp
  next
    case False
    have first: "\<forall>y \<in> set [y \<leftarrow> ?out. y \<noteq> dest_of c].
        best_key (c # cs) (dest_of c) < best_key (c # cs) y"
    proof
      fix y
      assume y: "y \<in> set [y \<leftarrow> ?out. y \<noteq> dest_of c]"
      then have "y \<in> dest_of ` set cs" and ne: "dest_of c \<noteq> y"
        by (auto simp: set_first_occurrences)
      from best_key_mem [OF this(1)] obtain x where "x \<in> set cs" "best_key cs y = sort_key_of x"
        by auto
      then have "sort_key_of c < best_key cs y" using lt by simp
      then show "best_key (c # cs) (dest_of c) < best_key (c # cs) y"
        using best_key_Cons_same [OF lt] best_key_Cons_other [OF ne] by simp
    qed
    have "first_occurrences [d \<leftarrow> map dest_of (c # cs). d \<noteq> []] =
        dest_of c # [y \<leftarrow> ?out. y \<noteq> dest_of c]"
      using False by (simp add: first_occurrences_Cons first_occurrences_filter)
    then show ?thesis using first rest by simp
  qed
qed

lemma collect_structured_indices:
  "collect_structured xs = Inr s \<Longrightarrow>
   set (map (\<lambda>item. snd (snd item)) s) \<subseteq> fst ` set xs \<and>
   (distinct (map fst xs) \<longrightarrow> distinct (map (\<lambda>item. snd (snd item)) s))"
proof (induction xs arbitrary: s)
  case Nil
  then show ?case by simp
next
  case (Cons x xs)
  obtain idx raw where x: "x = (idx, raw)" by (cases x)
  show ?case
  proof (cases "collect_structured xs")
    case (Inl e)
    then show ?thesis using Cons.prems x
      by (auto simp: Let_def split: sum.splits option.splits list.splits)
  next
    case (Inr s')
    from Cons.IH [OF Inr] have sub: "set (map (\<lambda>item. snd (snd item)) s') \<subseteq> fst ` set xs"
      and dis: "distinct (map fst xs) \<longrightarrow> distinct (map (\<lambda>item. snd (snd item)) s')" by simp_all
    from Cons.prems x Inr have "s = s' \<or> (\<exists>event dest. s = (event, dest, idx) # s')"
      by (auto simp: Let_def split: sum.splits option.splits list.splits)
    then show ?thesis
    proof
      assume "s = s'"
      then show ?thesis using sub dis by auto
    next
      assume "\<exists>event dest. s = (event, dest, idx) # s'"
      then obtain event dest where s: "s = (event, dest, idx) # s'" by blast
      show ?thesis unfolding s using sub dis x by auto
    qed
  qed
qed

lemma distinct_sort_keys:
  assumes "collect_structured (List.enumerate 0 ys) = Inr s"
  shows "distinct (map sort_key_of s)"
proof -
  have "distinct (map (\<lambda>item. snd (snd item)) s)"
    using collect_structured_indices [OF assms] by (simp add: distinct_enumerate)
  moreover have "(\<lambda>item. snd (snd item)) = snd \<circ> sort_key_of"
    by (rule ext) (simp add: sort_key_of_def)
  ultimately have "distinct (map (snd \<circ> sort_key_of) s)" by simp
  then have "distinct (map snd (map sort_key_of s))" by simp
  then show ?thesis by (auto simp: distinct_map dest: inj_on_imageI2)
qed

lemma strictly_sorted_keys:
  assumes "collect_structured (List.enumerate 0 ys) = Inr s"
  shows "sorted_wrt (<) (map sort_key_of (sort_key sort_key_of s))"
proof -
  have d: "distinct (map sort_key_of s)" by (rule distinct_sort_keys [OF assms])
  then have "distinct (map sort_key_of (sort_key sort_key_of s))"
    by (simp add: distinct_map)
  moreover have "sorted (map sort_key_of (sort_key sort_key_of s))"
    by (rule sorted_sort_key)
  ultimately show ?thesis by (simp add: strict_sorted_iff)
qed

lemma best_key_sort: "best_key (sort_key f s) d = best_key s d"
  by (simp add: best_key_def)

lemma parse_channel_links_eq:
  assumes "collect_structured (List.enumerate 0 (iter_redirect_urls page_text)) = Inr s"
  shows "parse_channel_links page_text =
     Inr (first_occurrences [d \<leftarrow> map dest_of (sort_key sort_key_of s). d \<noteq> []])"
  using assms by (simp add: parse_channel_links_def dedupe_eq)

lemma less_prod_explicit:
  "(p :: nat \<times> nat) < q \<longleftrightarrow> fst p < fst q \<or> (fst p = fst q \<and> snd p < snd q)"
  by (cases p; cases q) (auto simp: less_prod_def)

lemma parse_channel_links_sorted:
  assumes "collect_structured (List.enumerate 0 (iter_redirect_urls page_text)) = Inr s"
    and "parse_channel_links page_text = Inr links"
  shows "sorted_wrt (\<lambda>a b. best_key s a < best_key s b) links"
proof -
  have "links = first_occurrences [d \<leftarrow> map dest_of (sort_key sort_key_of s). d \<noteq> []]"
    using parse_channel_links_eq [OF assms(1)] assms(2) by simp
  then show ?thesis
    using sorted_first_occurrences [OF strictly_sorted_keys [OF assms(1)]]
    by (simp add: best_key_sort)
qed

lemma sort_key_of_ranks:
  "sort_key_of (''channel_header'', d, n) = (0, n)"
  "sort_key_of (''channel_about_metadata'', d, n) = (1, n)"
  "sort_key_of (''channel_description'', d, n) = (2, n)"
  "e \<notin> set events_priority \<Longrightarrow> sort_key_of (e, d, n) = (3, n)"
  by (auto simp: sort_key_of_def event_order_def events_priority_def upt_rec)

lemma three_links_order:
  assumes "collect_structured (List.enumerate 0 (iter_redirect_urls page_text)) =
      Inr [(''channel_description'', a, i), (''channel_header'', b, j), (e, c, k)]"
    and "e \<notin> set events_priority" and "distinct [a, b, c]" and "[] \<notin> set [a, b, c]"
  shows "parse_channel_links page_text = Inr [b, a, c]"
proof -
  have "sort_key sort_key_of [(''channel_description'', a, i), (''channel_header'', b, j), (e, c, k)]
      = [(''channel_header'', b, j), (''channel_description'', a, i), (e, c, k)]"
    using assms(2) by (simp add: sort_key_of_ranks less_eq_prod_def)
  moreover have "dedupe [(''channel_header'', b, j), (''channel_description'', a, i), (e, c, k)] [] {}
      = [b, a, c]"
    using assms(3,4) by auto
  ultimately show ?thesis
    unfolding parse_channel_links_def assms(1) by (simp del: sort_key_simps)
qed

subsection \<open>The order of the links\<close>

text \<open>
  C1. For every page text the parser returns a list of links, each the destination of a
  candidate, in strictly increasing order of the least sort key of their candidates: first
  by the rank of the event (0 for \<open>channel_header\<close>, 1 for \<open>channel_about_metadata\<close>, 2 for
  \<open>channel_description\<close>, 3 for any other or missing event), then by the index of
  discovery. When the candidates are, in this order, a \<open>channel_description\<close> link to \<open>a\<close>, a
  \<open>channel_header\<close> link to \<open>b\<close> and a link to \<open>c\<close> with an event outside the priority list, with
  distinct destinations that are not empty, the result is \<open>[b, a, c]\<close>.
\<close>

theorem parse_channel_links_priority_order:
  "(\<exists>structured links.
      collect_structured (List.enumerate 0 (iter_redirect_urls page_text)) = Inr structured \<and>
      parse_channel_links page_text = Inr links \<and>
      set links \<subseteq> dest_of ` set structured \<and>
      sorted_wrt (\<lambda>x y. fst (best_key structured x) < fst (best_key structured y) \<or>
                    (fst (best_key structured x) = fst (best_key structured y) \<and>
                     snd (best_key structured x) < snd (best_key structured y))) links) \<and>
   sort_key_of (''channel_header'', d, n) = (0, n) \<and>
   sort_key_of (''channel_about_metadata'', d, n) = (1, n) \<and>
   sort_key_of (''channel_description'', d, n) = (2, n) \<and>
   (e \<notin> set events_priority \<longrightarrow> sort_key_of (e, d, n) = (3, n)) \<and>
   (collect_structured (List.enumerate 0 (iter_redirect_urls page_text)) =
      Inr [(''channel_description'', a, i), (''channel_header'', b, j), (e, c, k)] \<and>
    e \<notin> set events_priority \<and> distinct [a, b, c] \<and> [] \<notin> set [a, b, c] \<longrightarrow>
    parse_channel_links page_text = Inr [b, a, c])"
proof -
  obtain s where s: "collect_structured (List.enumerate 0 (iter_redirect_urls page_text)) = Inr s"
    using collect_total by blast
  let ?links = "first_occurrences [d \<leftarrow> map dest_of (sort_key sort_key_of s). d \<noteq> []]"
  have eq: "parse_channel_links page_text = Inr ?links" by (rule parse_channel_links_eq [OF s])
  have sub: "set ?links \<subseteq> dest_of ` set s" by (auto simp: set_first_occurrences)
  have "sorted_wrt (\<lambda>x y. best_key s x < best_key s y) ?links"
    by (rule parse_channel_links_sorted [OF s eq])
  then have srt: "sorted_wrt (\<lambda>x y. fst (best_key s x) < fst (best_key s y) \<or>
      (fst (best_key s x) = fst (best_key s y) \<and> snd (best_key s x) < snd (best_key s y))) ?links"
    by (simp add: less_prod_explicit)
  have general: "\<exists>structured links.
      collect_structured (List.enumerate 0 (iter_redirect_urls page_text)) = Inr structured \<and>
      parse_channel_links page_text = Inr links \<and>
      set links \<subseteq> dest_of ` set structured \<and>
      sorted_wrt (\<lambda>x y. fst (best_key structured x) < fst (best_key structured y) \<or>
                    (fst (best_key structured x) = fst (best_key structured y) \<and>
                     snd (best_key structured x) < snd (best_key structured y))) links"
    using s eq sub srt by blast
  have example: "collect_structured (List.enumerate 0 (iter_redirect_urls page_text)) =
      Inr [(''channel_description'', a, i), (''channel_header'', b, j), (e, c, k)] \<and>
    e \<notin> set events_priority \<and> distinct [a, b, c] \<and> [] \<notin> set [a, b, c] \<longrightarrow>
    parse_channel_links page_text = Inr [b, a, c]"
    using three_links_order by blast
  have ranks: "sort_key_of (''channel_header'', d, n) = (0, n) \<and>
      sort_key_of (''channel_about_metadata'', d, n) = (1, n) \<and>
      sort_key_of (''channel_description'', d, n) = (2, n) \<and>
      (e \<notin> set events_priority \<longrightarrow> sort_key_of (e, d, n) = (3, n))"
    by (simp add: sort_key_of_ranks)
  show ?thesis
    using general example ranks by blast
qed

theorem parse_channel_links_priority_order_witness:
  "collect_structured (List.enumerate 0 (iter_redirect_urls
     ''(https://www.youtube.com/redirect?event=channel_description&q=https%3A%2F%2Fa.com) https://www.youtube.com/redirect?event=channel_header&q=https%3A%2F%2Fb.com https://www.youtube.com/redirect?q=https%3A%2F%2Fc.com'')) =
     Inr [(''channel_description'', ''https://a.com'', 0), (''channel_header'', ''https://b.com'', 1),
          ('''', ''https://c.com'', 2)] \<and>
   '''' \<notin> set events_priority \<and>
   parse_channel_links
     ''(https://www.youtube.com/redirect?event=channel_description&q=https%3A%2F%2Fa.com) https://www.youtube.com/redirect?event=channel_header&q=https%3A%2F%2Fb.com https://www.youtube.com/redirect?q=https%3A%2F%2Fc.com'' =
     Inr [''https://b.com'', ''https://a.com'', ''https://c.com'']"
proof -
  let ?page = "''(https://www.youtube.com/redirect?event=channel_description&q=https%3A%2F%2Fa.com) https://www.youtube.com/redirect?event=channel_header&q=https%3A%2F%2Fb.com https://www.youtube.com/redirect?q=https%3A%2F%2Fc.com''"
  have c: "collect_structured (List.enumerate 0 (iter_redirect_urls ?page)) =
     Inr [(''channel_description'', ''https://a.com'', 0), (''channel_header'', ''https://b.com'', 1),
          ('''', ''https://c.com'', 2)]"
    by code_simp
  have e: "'''' \<notin> set events_priority" by (simp add: events_priority_def)
  have d: "distinct [''https://a.com'', ''https://b.com'', ''https://c.com'']" by simp
  have n: "[] \<notin> set [''https://a.com'', ''https://b.com'', ''https://c.com'']" by simp
  from parse_channel_links_priority_order
    [of ?page "[]" 0 "''''" "''https://a.com''" 0 "''https://b.com''" 1 "''https://c.com''" 2]
  have "parse_channel_links ?page = Inr [''https://b.com'', ''https://a.com'', ''https://c.com'']"
    using c e d n by blast
  then show ?thesis using c e by blast
qed

subsection \<open>No duplicate and no empty link\<close>

lemma count_list_distinct: "distinct xs \<Longrightarrow> x \<in> set xs \<Longrightarrow> count_list xs x = 1"
  by (induction xs) auto

text \<open>
  C2. For every page text the parser returns a list of links with no duplicate and no empty
  string; the links are exactly the destinations of the candidates that are not empty, and
  each stands at the place of its first occurrence in the sorted list of candidates. The
  destination of a candidate, when it is not empty, occurs exactly once in the result,
  however many redirect links of the page lead to it.
\<close>

theorem parse_channel_links_distinct:
  "(\<exists>structured links.
      collect_structured (List.enumerate 0 (iter_redirect_urls page_text)) = Inr structured \<and>
      parse_channel_links page_text = Inr links \<and>
      distinct links \<and> [] \<notin> set links \<and>
      set links = {d \<in> dest_of ` set structured. d \<noteq> []} \<and>
      links = first_occurrences [d \<leftarrow> map dest_of (sort_key sort_key_of structured). d \<noteq> []]) \<and>
   (collect_structured (List.enumerate 0 (iter_redirect_urls page_text)) = Inr candidates \<and>
    (event, dest, idx) \<in> set candidates \<and> dest \<noteq> [] \<longrightarrow>
      (\<exists>links. parse_channel_links page_text = Inr links \<and> count_list links dest = 1))"
proof -
  obtain s where s: "collect_structured (List.enumerate 0 (iter_redirect_urls page_text)) = Inr s"
    using collect_total by blast
  let ?links = "first_occurrences [d \<leftarrow> map dest_of (sort_key sort_key_of s). d \<noteq> []]"
  have eq: "parse_channel_links page_text = Inr ?links" by (rule parse_channel_links_eq [OF s])
  have d: "distinct ?links" by (rule distinct_first_occurrences)
  have n: "[] \<notin> set ?links" by (simp add: set_first_occurrences)
  have m: "set ?links = {d \<in> dest_of ` set s. d \<noteq> []}"
    by (auto simp: set_first_occurrences)
  have general: "\<exists>structured links.
      collect_structured (List.enumerate 0 (iter_redirect_urls page_text)) = Inr structured \<and>
      parse_channel_links page_text = Inr links \<and>
      distinct links \<and> [] \<notin> set links \<and>
      set links = {d \<in> dest_of ` set structured. d \<noteq> []} \<and>
      links = first_occurrences [d \<leftarrow> map dest_of (sort_key sort_key_of structured). d \<noteq> []]"
    using s eq d n m by blast
  have once: "collect_structured (List.enumerate 0 (iter_redirect_urls page_text)) = Inr candidates \<and>
    (event, dest, idx) \<in> set candidates \<and> dest \<noteq> [] \<longrightarrow>
      (\<exists>links. parse_channel_links page_text = Inr links \<and> count_list links dest = 1)"
  proof
    assume a: "collect_structured (List.enumerate 0 (iter_redirect_urls page_text)) = Inr candidates \<and>
      (event, dest, idx) \<in> set candidates \<and> dest \<noteq> []"
    with s have c: "candidates = s" by simp
    from a c have "dest_of (event, dest, idx) \<in> dest_of ` set s" by blast
    then have "dest \<in> set ?links" using a m by (simp add: dest_of_def)
    then have "count_list ?links dest = 1" using d by (rule count_list_distinct [rotated])
    with eq show "\<exists>links. parse_channel_links page_text = Inr links \<and> count_list links dest = 1"
      by blast
  qed
  from general once show ?thesis by blast
qed

theorem parse_channel_links_distinct_witness:
  "collect_structured (List.enumerate 0 (iter_redirect_urls
     ''https://www.youtube.com/redirect?q=https%3A%2F%2Fx.com https://www.youtube.com/redirect?event=channel_header&q=https%3A%2F%2Fy.com (https://www.youtube.com/redirect?event=channel_description&q=https%3A%2F%2Fx.com) https://www.youtube.com/redirect?event=channel_header'')) =
     Inr [('''', ''https://x.com'', 0), (''channel_header'', ''https://y.com'', 1),
          (''channel_description'', ''https://x.com'', 2)] \<and>
   parse_channel_links
     ''https://www.youtube.com/redirect?q=https%3A%2F%2Fx.com https://www.youtube.com/redirect?event=channel_header&q=https%3A%2F%2Fy.com (https://www.youtube.com/redirect?event=channel_description&q=https%3A%2F%2Fx.com) https://www.youtube.com/redirect?event=channel_header'' =
     Inr [''https://y.com'', ''https://x.com''] \<and>
   count_list [''https://y.com'', ''https://x.com''] ''https://x.com'' = 1"
proof -
  let ?page = "''https://www.youtube.com/redirect?q=https%3A%2F%2Fx.com https://www.youtube.com/redirect?event=channel_header&q=https%3A%2F%2Fy.com (https://www.youtube.com/redirect?event=channel_description&q=https%3A%2F%2Fx.com) https://www.youtube.com/redirect?event=channel_header''"
  let ?cands = "[('''', ''https://x.com'', 0 :: nat), (''channel_header'', ''https://y.com'', 1),
          (''channel_description'', ''https://x.com'', 2)]"
  have c: "collect_structured (List.enumerate 0 (iter_redirect_urls ?page)) = Inr ?cands"
    by code_simp
  have f: "first_occurrences [d \<leftarrow> map dest_of (sort_key sort_key_of ?cands). d \<noteq> []] =
      [''https://y.com'', ''https://x.com'']"
    by code_simp
  note t = parse_channel_links_distinct [of ?page ?cands "''''" "''https://x.com''" 0]
  from t obtain st ls where st: "collect_structured (List.enumerate 0 (iter_redirect_urls ?page)) = Inr st"
    and ls: "parse_channel_links ?page = Inr ls"
    and fo: "ls = first_occurrences [d \<leftarrow> map dest_of (sort_key sort_key_of st). d \<noteq> []]"
    by blast
  from st c have "Inr st = (Inr ?cands :: py_exception + (string \<times> string \<times> nat) list)"
    by (rule trans [OF sym])
  then have "st = ?cands" by (simp only: sum.inject)
  then have "ls = [''https://y.com'', ''https://x.com'']" using fo f by (simp only:)
  with ls have p: "parse_channel_links ?page = Inr [''https://y.com'', ''https://x.com'']"
    by (simp only:)
  have m: "('''', ''https://x.com'', 0) \<in> set ?cands" by simp
  have ne: "''https://x.com'' \<noteq> []" by simp
  from t c m ne obtain links where l: "parse_channel_links ?page = Inr links"
    and cnt: "count_list links ''https://x.com'' = 1" by blast
  from l p have "Inr links = (Inr [''https://y.com'', ''https://x.com''] :: py_exception + string list)"
    by (rule trans [OF sym])
  then have "links = [''https://y.com'', ''https://x.com'']" by (simp only: sum.inject)
  with cnt have "count_list [''https://y.com'', ''https://x.com''] ''https://x.com'' = 1"
    by (simp only:)
  with c p show ?thesis by blast
qed

section \<open>The URL normaliser\<close>

subsection \<open>urljoin\<close>

text \<open>The loop of \<open>urljoin\<close> over the path segments: \<open>..\<close> drops the last resolved segment, if
  there is one, and \<open>.\<close> is skipped.\<close>

fun resolve_dots :: "string list \<Rightarrow> string list \<Rightarrow> string list" where
  "resolve_dots [] resolved_path = resolved_path"
| "resolve_dots (seg # segments) resolved_path =
     (if seg = ''..'' then resolve_dots segments (butlast resolved_path)
      else if seg = ''.'' then resolve_dots segments resolved_path
      else resolve_dots segments (resolved_path @ [seg]))"

text \<open>\<open>segments[1:-1] = filter(None, segments[1:-1])\<close>.\<close>

definition drop_inner_empty :: "string list \<Rightarrow> string list" where
  "drop_inner_empty segments =
     (if 2 \<le> length segments
      then hd segments # filter (\<lambda>s. s \<noteq> []) (butlast (tl segments)) @ [last segments]
      else segments)"

definition urljoin :: "string \<Rightarrow> string \<Rightarrow> py_exception + string" where
  "urljoin base url =
     (if base = [] then Inr url
      else if url = [] then Inr base
      else
        case urlparse base '''' of
          Inl exc \<Rightarrow> Inl exc
        | Inr b \<Rightarrow>
            (case urlparse url (scheme b) of
               Inl exc \<Rightarrow> Inl exc
             | Inr u \<Rightarrow>
                 if scheme u \<noteq> scheme b \<or> scheme u \<notin> set uses_relative then Inr url
                 else if scheme u \<in> set uses_netloc \<and> netloc u \<noteq> [] then Inr (urlunparse u)
                 else
                   let netloc1 = (if scheme u \<in> set uses_netloc then netloc b else netloc u) in
                   if path u = [] \<and> params u = [] then
                     Inr (urlunparse (u\<lparr>netloc := netloc1, path := path b, params := params b,
                            query := (if query u = [] then query b else query u)\<rparr>))
                   else
                     let base_parts0 = split_on CHR ''/'' (path b);
                         base_parts = (if last base_parts0 \<noteq> [] then butlast base_parts0
                                       else base_parts0);
                         segments = (if take 1 (path u) = ''/'' then split_on CHR ''/'' (path u)
                                     else drop_inner_empty
                                            (base_parts @ split_on CHR ''/'' (path u)));
                         resolved0 = resolve_dots segments [];
                         resolved_path = (if last segments \<in> set [''.'', ''..'']
                                          then resolved0 @ [''''] else resolved0);
                         joined = join ''/'' resolved_path
                     in Inr (urlunparse (u\<lparr>netloc := netloc1,
                               path := (if joined = [] then ''/'' else joined)\<rparr>))))"

subsection \<open>normalise_channel_url\<close>

text \<open>
  The first part of \<open>normalise_channel_url\<close>, for a URL that is not empty: the URL is
  stripped and parsed with the default scheme \<open>https\<close>; with no netloc it is joined to the
  YouTube origin and parsed again.
\<close>

definition resolved_parse :: "string \<Rightarrow> py_exception + parse_result" where
  "resolved_parse url0 =
     (let url = strip url0 in
      case urlparse url ''https'' of
        Inl exc \<Rightarrow> Inl exc
      | Inr parsed \<Rightarrow>
          if netloc parsed = [] then
            (case urljoin YOUTUBE_ORIGIN url of
               Inl exc \<Rightarrow> Inl exc
             | Inr url1 \<Rightarrow> urlparse url1 '''')
          else if scheme parsed = [] then Inr (parsed\<lparr>scheme := ''https''\<rparr>)
          else Inr parsed)"

text \<open>The test of the host: \<open>"youtube" in parsed.netloc.lower()\<close>.\<close>

definition is_youtube_host :: "string \<Rightarrow> bool" where
  "is_youtube_host netloc0 \<longleftrightarrow> contains ''youtube'' (lower netloc0)"

text \<open>The path of the canonical URL: without trailing slashes, then without one trailing
  \<open>/about\<close>.\<close>

definition canonical_path :: "string \<Rightarrow> string" where
  "canonical_path path0 =
     (let path1 = rstrip_chars ''/'' path0
      in if endswith ''/about'' path1 then take (length path1 - length ''/about'') path1
         else path1)"

definition normalise_channel_url :: "string \<Rightarrow> string option \<Rightarrow> py_exception + string option" where
  "normalise_channel_url url channel_id =
     (if url = [] then Inr None
      else
        case resolved_parse url of
          Inl exc \<Rightarrow> Inl exc
        | Inr parsed \<Rightarrow>
            if \<not> is_youtube_host (netloc parsed) then Inr None
            else
              let path1 = canonical_path (path parsed);
                  base = urlunparse \<lparr>scheme = ''https'', netloc = ''www.youtube.com'',
                           path = path1, params = '''', query = '''', fragment = ''''\<rparr>
              in case channel_id of
                   None \<Rightarrow> Inr (Some base)
                 | Some cid \<Rightarrow>
                     if cid \<noteq> [] \<and> \<not> contains ''/channel/'' path1
                     then Inr (Some (YOUTUBE_ORIGIN @ ''/channel/'' @ strip cid))
                     else Inr (Some base))"

subsection \<open>The results of the normaliser\<close>

lemma lower_simps: "lower [] = []" "lower (c # cs) = lower_char c # lower cs"
  by (simp_all add: lower_def)


lemma urlunparse_canonical:
  "urlunparse \<lparr>scheme = ''https'', netloc = ''www.youtube.com'', path = p, params = '''',
     query = '''', fragment = ''''\<rparr> =
   YOUTUBE_ORIGIN @ (if p \<noteq> [] \<and> take 1 p \<noteq> ''/'' then ''/'' @ p else p)"
  by (simp add: urlunparse_def urlunsplit_def YOUTUBE_ORIGIN_def)

lemma normalise_channel_url_Some:
  assumes "url \<noteq> []" "resolved_parse url = Inr parsed" "is_youtube_host (netloc parsed)"
  shows "normalise_channel_url url channel_id =
     Inr (Some (case channel_id of
                  None \<Rightarrow> urlunparse \<lparr>scheme = ''https'', netloc = ''www.youtube.com'',
                           path = canonical_path (path parsed), params = '''', query = '''',
                           fragment = ''''\<rparr>
                | Some cid \<Rightarrow>
                    if cid \<noteq> [] \<and> \<not> contains ''/channel/'' (canonical_path (path parsed))
                    then YOUTUBE_ORIGIN @ ''/channel/'' @ strip cid
                    else urlunparse \<lparr>scheme = ''https'', netloc = ''www.youtube.com'',
                           path = canonical_path (path parsed), params = '''', query = '''',
                           fragment = ''''\<rparr>))"
  using assms by (simp add: normalise_channel_url_def Let_def split: option.splits)

subsection \<open>Canonical URLs with a settled path\<close>

text \<open>A path is settled when the normaliser has nothing left to remove from it and the
  parser reads it back as it is.\<close>

definition url_safe_char :: "char \<Rightarrow> bool" where
  "url_safe_char c \<longleftrightarrow> \<not> isspace c \<and> c \<notin> set ''?#;''"

definition settled :: "string \<Rightarrow> bool" where
  "settled p \<longleftrightarrow>
     (p = [] \<or> take 1 p = ''/'') \<and> list_all url_safe_char p \<and>
     \<not> endswith ''/'' p \<and> \<not> endswith ''/about'' p"

lemma rstrip_id: "s \<noteq> [] \<Longrightarrow> \<not> isspace (last s) \<Longrightarrow> rstrip s = s"
  by (cases "rev s") (auto simp: rstrip_def last_rev [symmetric] simp del: last_rev)

lemma safe_not_unsafe: "url_safe_char c \<Longrightarrow> \<not> unsafe_url_byte c"
  by (auto simp: url_safe_char_def unsafe_url_byte_def isspace_def)

lemma settled_filter:
  "list_all url_safe_char p \<Longrightarrow> filter (\<lambda>c. \<not> unsafe_url_byte c) p = p"
  by (rule filter_True) (auto simp: list_all_iff safe_not_unsafe)

lemma strip_origin:
  assumes "list_all url_safe_char p"
  shows "strip (YOUTUBE_ORIGIN @ p) = YOUTUBE_ORIGIN @ p"
proof -
  have l: "lstrip (YOUTUBE_ORIGIN @ p) = YOUTUBE_ORIGIN @ p"
    by (simp add: lstrip_def YOUTUBE_ORIGIN_def isspace_def)
  have "\<not> isspace (last (YOUTUBE_ORIGIN @ p))"
  proof (cases "p = []")
    case True
    then show ?thesis by (simp add: YOUTUBE_ORIGIN_def isspace_def)
  next
    case False
    then have "last p \<in> set p" by simp
    then have "url_safe_char (last p)" using assms by (simp add: list_all_iff)
    then show ?thesis using False by (simp add: url_safe_char_def)
  qed
  moreover have "YOUTUBE_ORIGIN @ p \<noteq> []" by (simp add: YOUTUBE_ORIGIN_def)
  ultimately show ?thesis unfolding strip_def l by (rule rstrip_id [rotated])
qed

lemma split_once_absent: "sep \<notin> set s \<Longrightarrow> split_once sep s = (s, None)"
proof -
  assume a: "sep \<notin> set s"
  then have "takeWhile (\<lambda>c. c \<noteq> sep) s = s" by (auto intro: takeWhile_eq_all_conv [THEN iffD2])
  moreover have "dropWhile (\<lambda>c. c \<noteq> sep) s = []" using a by auto
  ultimately show ?thesis by (simp add: split_once_def)
qed

lemma safe_chars_absent:
  assumes "list_all url_safe_char p"
  shows "CHR ''#'' \<notin> set p" "CHR ''?'' \<notin> set p" "CHR '';'' \<notin> set p"
  using assms by (auto simp: list_all_iff url_safe_char_def)

lemma split_scheme_origin:
  "split_scheme (''https://www.youtube.com'' @ p) = Some (''https'', ''//www.youtube.com'' @ p)"
  by (simp add: split_scheme_def scheme_chars_def lower_def lower_char_def upper_letters_def
      lower_letters_def)

lemma urlsplit_origin:
  assumes "p = [] \<or> take 1 p = ''/''" and "list_all url_safe_char p"
  shows "urlsplit (YOUTUBE_ORIGIN @ p) s0 =
     Inr \<lparr>scheme = ''https'', netloc = ''www.youtube.com'', path = p, params = '''',
          query = '''', fragment = ''''\<rparr>"
proof -
  have d: "dropWhile c0_control_or_space (YOUTUBE_ORIGIN @ p) = YOUTUBE_ORIGIN @ p"
    by (simp add: YOUTUBE_ORIGIN_def c0_control_or_space_def)
  have f: "filter (\<lambda>c. \<not> unsafe_url_byte c) (YOUTUBE_ORIGIN @ p) = ''https://www.youtube.com'' @ p"
    using settled_filter [OF assms(2)] by (simp add: YOUTUBE_ORIGIN_def unsafe_url_byte_def)
  show ?thesis
    unfolding urlsplit_def d f split_scheme_origin Let_def option.case prod.case
    using assms(1) safe_chars_absent [OF assms(2)]
    by (cases p) (simp_all add: Let_def split_once_absent netloc_delim_def)
qed

lemma urlparse_origin:
  assumes "p = [] \<or> take 1 p = ''/''" and "list_all url_safe_char p"
  shows "urlparse (YOUTUBE_ORIGIN @ p) s0 =
     Inr \<lparr>scheme = ''https'', netloc = ''www.youtube.com'', path = p, params = '''',
          query = '''', fragment = ''''\<rparr>"
  using safe_chars_absent(3) [OF assms(2)]
  by (simp add: urlparse_def urlsplit_origin [OF assms])

lemma resolved_parse_origin:
  assumes "p = [] \<or> take 1 p = ''/''" and "list_all url_safe_char p"
  shows "resolved_parse (YOUTUBE_ORIGIN @ p) =
     Inr \<lparr>scheme = ''https'', netloc = ''www.youtube.com'', path = p, params = '''',
          query = '''', fragment = ''''\<rparr>"
  by (simp add: resolved_parse_def strip_origin [OF assms(2)] urlparse_origin [OF assms])

lemma rstrip_chars_id: "\<not> endswith ''/'' p \<Longrightarrow> rstrip_chars ''/'' p = p"
  by (cases "rev p") (auto simp: rstrip_chars_def endswith_def)

lemma canonical_path_settled: "settled p \<Longrightarrow> canonical_path p = p"
  by (simp add: canonical_path_def settled_def rstrip_chars_id Let_def)

lemma is_youtube_host_www: "is_youtube_host ''www.youtube.com''"
  by code_simp

lemma normalise_settled:
  assumes "settled p"
  shows "normalise_channel_url (YOUTUBE_ORIGIN @ p) channel_id =
     Inr (Some (case channel_id of
                  None \<Rightarrow> YOUTUBE_ORIGIN @ p
                | Some cid \<Rightarrow>
                    if cid \<noteq> [] \<and> \<not> contains ''/channel/'' p
                    then YOUTUBE_ORIGIN @ ''/channel/'' @ strip cid
                    else YOUTUBE_ORIGIN @ p))"
proof -
  from assms have a: "p = [] \<or> take 1 p = ''/''" and b: "list_all url_safe_char p"
    by (simp_all add: settled_def)
  have ne: "YOUTUBE_ORIGIN @ p \<noteq> []" by (simp add: YOUTUBE_ORIGIN_def)
  have u: "urlunparse \<lparr>scheme = ''https'', netloc = ''www.youtube.com'', path = p, params = '''',
     query = '''', fragment = ''''\<rparr> = YOUTUBE_ORIGIN @ p"
    using a by (auto simp: urlunparse_canonical)
  have h: "is_youtube_host (netloc \<lparr>scheme = ''https'', netloc = ''www.youtube.com'', path = p,
     params = '''', query = '''', fragment = ''''\<rparr>)"
    using is_youtube_host_www by simp
  show ?thesis
    unfolding normalise_channel_url_Some [OF ne resolved_parse_origin [OF a b] h]
    by (simp add: canonical_path_settled [OF assms] u split: option.splits)
qed

lemma contains_Cons: "contains sub s \<Longrightarrow> contains sub (c # s)"
  by simp

lemma contains_channel_prefix: "contains ''/channel/'' (''/channel/'' @ s)"
  by simp

lemma normalise_channel_url_result:
  assumes "normalise_channel_url url channel_id = Inr (Some u)"
  shows "\<exists>p. u = YOUTUBE_ORIGIN @ p \<and>
     (case channel_id of None \<Rightarrow> True | Some cid \<Rightarrow> cid \<noteq> [] \<longrightarrow> contains ''/channel/'' p)"
proof -
  from assms have ne: "url \<noteq> []"
    by (auto simp: normalise_channel_url_def)
  from assms ne obtain parsed where rp: "resolved_parse url = Inr parsed"
    and yt: "is_youtube_host (netloc parsed)"
    by (auto simp: normalise_channel_url_def split: sum.splits if_splits)
  let ?p = "canonical_path (path parsed)"
  let ?q = "if ?p \<noteq> [] \<and> take 1 ?p \<noteq> ''/'' then ''/'' @ ?p else ?p"
  have q: "contains ''/channel/'' ?p \<Longrightarrow> contains ''/channel/'' ?q"
    by (simp del: contains.simps add: contains_Cons)
  show ?thesis
  proof (cases channel_id)
    case None
    then show ?thesis using assms normalise_channel_url_Some [OF ne rp yt, of None]
      by (auto simp: urlunparse_canonical)
  next
    case (Some cid)
    show ?thesis
    proof (cases "cid \<noteq> [] \<and> \<not> contains ''/channel/'' ?p")
      case True
      then have "u = YOUTUBE_ORIGIN @ ''/channel/'' @ strip cid"
        using assms normalise_channel_url_Some [OF ne rp yt, of "Some cid"] Some by simp
      then show ?thesis using Some contains_channel_prefix [of "strip cid"] by auto
    next
      case False
      have "normalise_channel_url url (Some cid) = Inr (Some (YOUTUBE_ORIGIN @ ?q))"
        unfolding normalise_channel_url_Some [OF ne rp yt, of "Some cid"] urlunparse_canonical
        using False by auto
      then have "u = YOUTUBE_ORIGIN @ ?q"
        using assms Some by simp
      moreover have "cid \<noteq> [] \<longrightarrow> contains ''/channel/'' ?q" using False q by blast
      ultimately show ?thesis using Some by auto
    qed
  qed
qed

lemma normalise_idempotent_settled:
  assumes "normalise_channel_url url channel_id = Inr (Some u)"
    and "settled (drop (length YOUTUBE_ORIGIN) u)"
  shows "normalise_channel_url u channel_id = Inr (Some u)"
proof -
  from normalise_channel_url_result [OF assms(1)] obtain p where u: "u = YOUTUBE_ORIGIN @ p"
    and c: "case channel_id of None \<Rightarrow> True | Some cid \<Rightarrow> cid \<noteq> [] \<longrightarrow> contains ''/channel/'' p"
    by blast
  from assms(2) u have s: "settled p" by simp
  show ?thesis unfolding u normalise_settled [OF s] using c
    by (auto split: option.splits)
qed

subsection \<open>Idempotence\<close>

text \<open>
  C3, as stated, fails: the normaliser removes one trailing \<open>/about\<close>, so the about page of
  a channel whose path itself ends in \<open>/about\<close> is normalised to a URL that is normalised
  further.
\<close>

theorem normalise_channel_url_not_idempotent:
  "normalise_channel_url ''https://www.youtube.com/c/about/about'' None =
     Inr (Some ''https://www.youtube.com/c/about'') \<and>
   normalise_channel_url ''https://www.youtube.com/c/about'' None \<noteq>
     Inr (Some ''https://www.youtube.com/c/about'')"
  by code_simp

text \<open>
  C3, amended. When \<open>normalise_channel_url\<close> returns a canonical URL whose path (the text
  after the YouTube origin) is empty or starts with \<open>/\<close>, has no white space and none of
  \<open>?\<close>, \<open>#\<close>, \<open>;\<close>, and ends neither in \<open>/\<close> nor in \<open>/about\<close>, normalising that URL with the
  same channel id returns it again.
\<close>

theorem normalise_channel_url_idempotent:
  assumes "normalise_channel_url url channel_id = Inr (Some u)"
    and "settled (drop (length YOUTUBE_ORIGIN) u)"
  shows "normalise_channel_url u channel_id = Inr (Some u)"
  using assms by (rule normalise_idempotent_settled)

theorem normalise_channel_url_idempotent_witness:
  "normalise_channel_url ''youtube.com/@foo/about/'' (Some ''UC123'') =
     Inr (Some ''https://www.youtube.com/channel/UC123'') \<and>
   settled (drop (length YOUTUBE_ORIGIN) ''https://www.youtube.com/channel/UC123'') \<and>
   normalise_channel_url ''https://www.youtube.com/channel/UC123'' (Some ''UC123'') =
     Inr (Some ''https://www.youtube.com/channel/UC123'')"
proof -
  have a: "normalise_channel_url ''youtube.com/@foo/about/'' (Some ''UC123'') =
     Inr (Some ''https://www.youtube.com/channel/UC123'')"
    by code_simp
  have b: "settled (drop (length YOUTUBE_ORIGIN) ''https://www.youtube.com/channel/UC123'')"
    by code_simp
  from normalise_channel_url_idempotent [OF a b] a b show ?thesis by blast
qed

subsection \<open>When the normaliser returns nothing\<close>




subsection \<open>The channel id\<close>

text \<open>
  C9. For a URL that is not empty and whose resolved netloc is accepted as a YouTube
  host: with a channel id that is not empty and a canonical path without \<open>/channel/\<close> the
  result is the YouTube origin, \<open>/channel/\<close> and the id (stripped of surrounding white
  space; the id itself when it has none), whatever the path; with a canonical path that
  contains \<open>/channel/\<close> the result is the one without a channel id, the canonical URL of
  the path.
\<close>

theorem normalise_channel_url_channel_id:
  "url \<noteq> [] \<and> resolved_parse url = Inr parsed \<and> is_youtube_host (netloc parsed) \<longrightarrow>
     (cid \<noteq> [] \<and> \<not> contains ''/channel/'' (canonical_path (path parsed)) \<longrightarrow>
        normalise_channel_url url (Some cid) =
          Inr (Some (YOUTUBE_ORIGIN @ ''/channel/'' @ strip cid)) \<and>
        (strip cid = cid \<longrightarrow>
           normalise_channel_url url (Some cid) =
             Inr (Some (''https://www.youtube.com/channel/'' @ cid)))) \<and>
     (contains ''/channel/'' (canonical_path (path parsed)) \<longrightarrow>
        normalise_channel_url url (Some cid) = normalise_channel_url url None) \<and>
     normalise_channel_url url None =
       Inr (Some (urlunparse \<lparr>scheme = ''https'', netloc = ''www.youtube.com'',
                    path = canonical_path (path parsed), params = '''', query = '''',
                    fragment = ''''\<rparr>))"
proof
  assume a: "url \<noteq> [] \<and> resolved_parse url = Inr parsed \<and> is_youtube_host (netloc parsed)"
  then have ne: "url \<noteq> []" and rp: "resolved_parse url = Inr parsed"
    and yt: "is_youtube_host (netloc parsed)" by simp_all
  note s = normalise_channel_url_Some [OF ne rp yt]
  show "(cid \<noteq> [] \<and> \<not> contains ''/channel/'' (canonical_path (path parsed)) \<longrightarrow>
        normalise_channel_url url (Some cid) =
          Inr (Some (YOUTUBE_ORIGIN @ ''/channel/'' @ strip cid)) \<and>
        (strip cid = cid \<longrightarrow>
           normalise_channel_url url (Some cid) =
             Inr (Some (''https://www.youtube.com/channel/'' @ cid)))) \<and>
     (contains ''/channel/'' (canonical_path (path parsed)) \<longrightarrow>
        normalise_channel_url url (Some cid) = normalise_channel_url url None) \<and>
     normalise_channel_url url None =
       Inr (Some (urlunparse \<lparr>scheme = ''https'', netloc = ''www.youtube.com'',
                    path = canonical_path (path parsed), params = '''', query = '''',
                    fragment = ''''\<rparr>))"
    unfolding s [of "Some cid"] s [of None]
    by (simp add: YOUTUBE_ORIGIN_def del: contains.simps)
qed

theorem normalise_channel_url_channel_id_witness:
  "normalise_channel_url ''https://www.youtube.com/@foo/about'' (Some '' UC123 '') =
     Inr (Some ''https://www.youtube.com/channel/UC123'') \<and>
   normalise_channel_url ''https://www.youtube.com/@foo/about'' (Some ''UC123'') =
     Inr (Some ''https://www.youtube.com/channel/UC123'') \<and>
   normalise_channel_url ''https://www.youtube.com/channel/UCabc/'' (Some ''UC123'') =
     Inr (Some ''https://www.youtube.com/channel/UCabc'')"
proof -
  let ?p1 = "\<lparr>scheme = ''https'', netloc = ''www.youtube.com'', path = ''/@foo/about'',
      params = '''', query = '''', fragment = ''''\<rparr>"
  let ?p2 = "\<lparr>scheme = ''https'', netloc = ''www.youtube.com'', path = ''/channel/UCabc/'',
      params = '''', query = '''', fragment = ''''\<rparr>"
  have r1: "resolved_parse ''https://www.youtube.com/@foo/about'' = Inr ?p1" by code_simp
  have r2: "resolved_parse ''https://www.youtube.com/channel/UCabc/'' = Inr ?p2" by code_simp
  have y1: "is_youtube_host (netloc ?p1)" by code_simp
  have y2: "is_youtube_host (netloc ?p2)" by code_simp
  have c1: "\<not> contains ''/channel/'' (canonical_path (path ?p1))" by code_simp
  have c2: "contains ''/channel/'' (canonical_path (path ?p2))" by code_simp
  have s1: "strip '' UC123 '' = ''UC123''" by code_simp
  have s2: "strip ''UC123'' = ''UC123''" by code_simp
  have u2: "urlunparse \<lparr>scheme = ''https'', netloc = ''www.youtube.com'',
      path = canonical_path (path ?p2), params = '''', query = '''', fragment = ''''\<rparr> =
      ''https://www.youtube.com/channel/UCabc''" by code_simp
  have 1: "normalise_channel_url ''https://www.youtube.com/@foo/about'' (Some '' UC123 '') =
     Inr (Some ''https://www.youtube.com/channel/UC123'')"
    using normalise_channel_url_channel_id
      [of "''https://www.youtube.com/@foo/about''" ?p1 "'' UC123 ''"] r1 y1 c1 s1
    by (simp add: YOUTUBE_ORIGIN_def del: contains.simps)
  have 2: "normalise_channel_url ''https://www.youtube.com/@foo/about'' (Some ''UC123'') =
     Inr (Some ''https://www.youtube.com/channel/UC123'')"
    using normalise_channel_url_channel_id
      [of "''https://www.youtube.com/@foo/about''" ?p1 "''UC123''"] r1 y1 c1 s2
    by (simp add: YOUTUBE_ORIGIN_def del: contains.simps)
  have 3: "normalise_channel_url ''https://www.youtube.com/channel/UCabc/'' (Some ''UC123'') =
     Inr (Some ''https://www.youtube.com/channel/UCabc'')"
    using normalise_channel_url_channel_id
      [of "''https://www.youtube.com/channel/UCabc/''" ?p2 "''UC123''"] r2 y2 c2 u2
    by (simp del: contains.simps)
  from 1 2 3 show ?thesis by blast
qed

section \<open>The subscription reader\<close>

record subscription =
  title :: string
  url :: string
  channel_id :: "string option"

text \<open>\<open>_normalise_column_name\<close>: \<open>name.strip().lower().replace("_", " ")\<close>.\<close>

definition normalise_column_name :: "string \<Rightarrow> string" where
  "normalise_column_name name =
     map (\<lambda>c. if c = CHR ''_'' then CHR '' '' else c) (lower (strip name))"

text \<open>
  A row of \<open>csv.DictReader\<close> is a dictionary, in the order of insertion: the cells of the
  row under the names of the header (\<open>None\<close> under a name beyond the end of a short row)
  and, when the row has more fields than the header, the list of the surplus fields
  under the key \<open>None\<close>, which comes last.
\<close>

record csv_row =
  cells :: "(string \<times> string option) list"
  surplus :: "string list"

text \<open>\<open>d[key] = value\<close> on a dictionary in insertion order.\<close>

fun dict_set :: "'k \<Rightarrow> 'v \<Rightarrow> ('k \<times> 'v) list \<Rightarrow> ('k \<times> 'v) list" where
  "dict_set k v [] = [(k, v)]"
| "dict_set k v ((k', v') # d) = (if k = k' then (k, v) # d else (k', v') # dict_set k v d)"

text \<open>The row that \<open>DictReader\<close> makes of the fields of a line, for the names of the header.\<close>

definition dict_row :: "string list \<Rightarrow> string list \<Rightarrow> csv_row" where
  "dict_row fieldnames field_values =
     \<lparr>cells = fold (\<lambda>(k, v). dict_set k v)
                (zip fieldnames
                   (map Some field_values @
                    replicate (length fieldnames - length field_values) None))
                [],
      surplus = drop (length fieldnames) field_values\<rparr>"

definition AttributeError :: py_exception where
  "AttributeError = OtherException ''AttributeError''"

text \<open>
  \<open>_get_first\<close>: the loop over \<open>row.items()\<close>, first the cells, then the key \<open>None\<close> when
  the row has surplus fields. The value of the first name that matches is returned;
  \<open>_normalise_column_name(None)\<close> raises \<open>AttributeError\<close>, as \<open>None\<close> has no method \<open>strip\<close>.
\<close>

fun get_first_from ::
  "(string \<times> string option) list \<Rightarrow> string list \<Rightarrow> string set \<Rightarrow> py_exception + string option" where
  "get_first_from [] rest_fields keys =
     (if rest_fields = [] then Inr None else Inl AttributeError)"
| "get_first_from ((raw_key, v) # later) rest_fields keys =
     (if normalise_column_name raw_key \<in> keys then Inr v
      else get_first_from later rest_fields keys)"

definition get_first :: "csv_row \<Rightarrow> string set \<Rightarrow> py_exception + string option" where
  "get_first row keys = get_first_from (cells row) (surplus row) keys"

text \<open>The truth value of an optional string: \<open>None\<close> and the empty string are false.\<close>

definition truthy :: "string option \<Rightarrow> bool" where
  "truthy s = (case s of None \<Rightarrow> False | Some v \<Rightarrow> v \<noteq> [])"

definition row_to_subscription :: "csv_row \<Rightarrow> py_exception + subscription option" where
  "row_to_subscription row =
     (case get_first row {''channel title'', ''title''} of
        Inl exc \<Rightarrow> Inl exc
      | Inr title0 \<Rightarrow>
          (case get_first row {''channel url'', ''url''} of
             Inl exc \<Rightarrow> Inl exc
           | Inr url0 \<Rightarrow>
               (case get_first row {''channel id'', ''id''} of
                  Inl exc \<Rightarrow> Inl exc
                | Inr channel_id0 \<Rightarrow>
                    (let url1 = (case channel_id0 of
                                   Some cid \<Rightarrow>
                                     if \<not> truthy url0 \<and> cid \<noteq> []
                                     then Some (YOUTUBE_ORIGIN @ ''/channel/'' @ strip cid)
                                     else url0
                                 | None \<Rightarrow> url0)
                     in case (title0, url1) of
                          (Some t, Some u) \<Rightarrow>
                            if t = [] \<or> u = [] then Inr None
                            else Inr (Some \<lparr>title = strip t, url = strip u,
                                             channel_id = channel_id0\<rparr>)
                        | _ \<Rightarrow> Inr None))))"

text \<open>The loop of \<open>SubscriptionReader.read\<close> over the rows: an exception of a row ends it.\<close>

fun read_rows :: "csv_row list \<Rightarrow> py_exception + subscription list" where
  "read_rows [] = Inr []"
| "read_rows (row # rows) =
     (case row_to_subscription row of
        Inl exc \<Rightarrow> Inl exc
      | Inr sub \<Rightarrow>
          (case read_rows rows of
             Inl exc \<Rightarrow> Inl exc
           | Inr subscriptions \<Rightarrow>
               Inr (case sub of None \<Rightarrow> subscriptions | Some s \<Rightarrow> s # subscriptions)))"

text \<open>
  \<open>SubscriptionReader.read\<close> on the lines of the file, each the list of its fields: the
  first line is the header, and \<open>DictReader\<close> leaves out the lines with no field. Opening
  the file and splitting its lines into fields are outside the model.
\<close>

definition read :: "string list list \<Rightarrow> py_exception + subscription list" where
  "read lines =
     (case lines of
        [] \<Rightarrow> Inr []
      | fieldnames # data \<Rightarrow>
          read_rows (map (dict_row fieldnames) (filter (\<lambda>field_values. field_values \<noteq> []) data)))"

subsection \<open>Rows and subscriptions\<close>

lemma get_first_from_raises_iff:
  "get_first_from cs rest_fields keys = Inl exc \<longleftrightarrow>
     exc = AttributeError \<and> rest_fields \<noteq> [] \<and>
     (\<forall>c \<in> set cs. normalise_column_name (fst c) \<notin> keys)"
  by (induction cs) (auto split: if_splits)

lemma get_first_raises_iff:
  "get_first row keys = Inl exc \<longleftrightarrow>
     exc = AttributeError \<and> surplus row \<noteq> [] \<and>
     (\<forall>c \<in> set (cells row). normalise_column_name (fst c) \<notin> keys)"
  by (simp add: get_first_def get_first_from_raises_iff)

lemma get_first_regular: "surplus row = [] \<Longrightarrow> \<exists>v. get_first row keys = Inr v"
  using get_first_raises_iff [of row keys] by (cases "get_first row keys") auto

lemma strip_nonempty_prefix:
  "strip (YOUTUBE_ORIGIN @ ''/channel/'' @ strip cid) = YOUTUBE_ORIGIN @ ''/channel/'' @ strip cid"
proof -
  let ?s = "YOUTUBE_ORIGIN @ ''/channel/'' @ strip cid"
  have l: "lstrip ?s = ?s" by (simp add: lstrip_def YOUTUBE_ORIGIN_def isspace_def)
  have "\<not> isspace (last ?s)"
  proof (cases "strip cid = []")
    case True
    then show ?thesis by (simp add: YOUTUBE_ORIGIN_def isspace_def)
  next
    case False
    have e: "rev (strip cid) = dropWhile isspace (rev (lstrip cid))"
      by (simp add: strip_def rstrip_def)
    have "dropWhile isspace (rev (lstrip cid)) \<noteq> []"
      using False unfolding e [symmetric] by simp
    then have "\<not> isspace (hd (rev (strip cid)))"
      unfolding e by (rule hd_dropWhile)
    then have "\<not> isspace (last (strip cid))" using False by (simp add: hd_rev)
    then show ?thesis using False by simp
  qed
  moreover have "?s \<noteq> []" by (simp add: YOUTUBE_ORIGIN_def)
  ultimately have r: "rstrip ?s = ?s" by (rule rstrip_id [rotated])
  have "strip ?s = rstrip (lstrip ?s)" by (simp only: strip_def)
  also have "\<dots> = ?s" by (simp only: l r)
  finally show ?thesis .
qed

text \<open>
  When the three look-ups of a row return, the row gives a subscription exactly when
  it supplies a title and a URL or a channel id, and no exception; the URL made of a
  channel id is the YouTube origin, \<open>/channel/\<close> and the stripped id.
\<close>

lemma row_to_subscription_values:
  assumes "get_first row {''channel title'', ''title''} = Inr t0"
    and "get_first row {''channel url'', ''url''} = Inr u0"
    and "get_first row {''channel id'', ''id''} = Inr c0"
  shows "(\<exists>sub. row_to_subscription row = Inr (Some sub)) \<longleftrightarrow>
           truthy t0 \<and> (truthy u0 \<or> truthy c0)"
    and "\<exists>r. row_to_subscription row = Inr r"
    and "truthy t0 \<Longrightarrow> \<not> truthy u0 \<Longrightarrow> c0 = Some cid \<Longrightarrow> cid \<noteq> [] \<Longrightarrow>
           \<exists>sub. row_to_subscription row = Inr (Some sub) \<and>
                 url sub = YOUTUBE_ORIGIN @ ''/channel/'' @ strip cid"
    and "t0 = Some t \<Longrightarrow> t \<noteq> [] \<Longrightarrow> u0 = Some u \<Longrightarrow> u \<noteq> [] \<Longrightarrow>
           row_to_subscription row =
             Inr (Some \<lparr>title = strip t, url = strip u, channel_id = c0\<rparr>)"
proof -
  show "(\<exists>sub. row_to_subscription row = Inr (Some sub)) \<longleftrightarrow>
           truthy t0 \<and> (truthy u0 \<or> truthy c0)"
    using assms
    by (auto simp: row_to_subscription_def truthy_def Let_def YOUTUBE_ORIGIN_def
        split: option.splits)
  show "\<exists>r. row_to_subscription row = Inr r"
    using assms by (auto simp: row_to_subscription_def Let_def split: option.splits)
  show "\<exists>sub. row_to_subscription row = Inr (Some sub) \<and>
                 url sub = YOUTUBE_ORIGIN @ ''/channel/'' @ strip cid"
    if "truthy t0" "\<not> truthy u0" "c0 = Some cid" "cid \<noteq> []"
  proof -
    have "YOUTUBE_ORIGIN @ ''/channel/'' @ strip cid \<noteq> []" by (simp add: YOUTUBE_ORIGIN_def)
    then show ?thesis using assms that
      by (auto simp: row_to_subscription_def Let_def truthy_def
          strip_nonempty_prefix [simplified] split: option.splits)
  qed
  show "row_to_subscription row =
             Inr (Some \<lparr>title = strip t, url = strip u, channel_id = c0\<rparr>)"
    if "t0 = Some t" "t \<noteq> []" "u0 = Some u" "u \<noteq> []"
    using assms that
    by (simp add: row_to_subscription_def Let_def truthy_def split: option.splits)
qed

lemma takeout_headers:
  "normalise_column_name ''Channel Title'' = ''channel title''"
  "normalise_column_name ''Channel Url'' = ''channel url''"
  by code_simp+

text \<open>A file with the headers \<open>Channel Title,Channel Url\<close> and one line with both values
  gives exactly one subscription, with the stripped title and URL.\<close>

lemma takeout_file:
  assumes "t \<noteq> []" "u \<noteq> []"
  shows "read [[''Channel Title'', ''Channel Url''], [t, u]] =
     Inr [\<lparr>title = strip t, url = strip u, channel_id = None\<rparr>]"
proof -
  let ?row = "\<lparr>cells = [(''Channel Title'', Some t), (''Channel Url'', Some u)], surplus = []\<rparr>"
  have d: "dict_row [''Channel Title'', ''Channel Url''] [t, u] = ?row"
    by (simp add: dict_row_def)
  have a: "get_first ?row {''channel title'', ''title''} = Inr (Some t)"
    by (simp add: get_first_def takeout_headers)
  have b: "get_first ?row {''channel url'', ''url''} = Inr (Some u)"
    by (simp add: get_first_def takeout_headers)
  have c: "get_first ?row {''channel id'', ''id''} = Inr None"
    by (simp add: get_first_def takeout_headers)
  have "row_to_subscription ?row =
      Inr (Some \<lparr>title = strip t, url = strip u, channel_id = None\<rparr>)"
    using row_to_subscription_values(4) [OF a b c refl assms(1) refl assms(2)] .
  then show ?thesis by (simp add: read_def d)
qed

text \<open>
  C5 fails on the rows with more fields than the header. \<open>DictReader\<close> puts the surplus
  fields under the key \<open>None\<close>, and a look-up that no column name matches reaches that key
  and raises \<open>AttributeError\<close>: a line with a title, a URL and one more field under the
  headers \<open>Channel Title,Channel Url\<close> gives no subscription but the exception, out of
  \<open>read\<close>; a line with three fields under headers that name neither title nor URL raises
  as well, where the same line without the third field is skipped.
\<close>

theorem read_surplus_field_raises:
  "read [[''Channel Title'', ''Channel Url''],
         [''Foo'', ''https://www.youtube.com/c/foo'', ''extra'']] = Inl AttributeError \<and>
   row_to_subscription
     (dict_row [''Channel Title'', ''Channel Url'']
        [''Foo'', ''https://www.youtube.com/c/foo'', ''extra'']) = Inl AttributeError \<and>
   read [[''Channel Title'', ''Channel Url''], [''Foo'', ''https://www.youtube.com/c/foo'']] =
     Inr [\<lparr>title = ''Foo'', url = ''https://www.youtube.com/c/foo'', channel_id = None\<rparr>] \<and>
   row_to_subscription (dict_row [''Foo'', ''Bar''] [''a'', ''b'', ''c'']) = Inl AttributeError \<and>
   row_to_subscription (dict_row [''Foo'', ''Bar''] [''a'', ''b'']) = Inr None"
  by code_simp

section \<open>The scrape loop\<close>

text \<open>\<open>Subscription.about_url\<close>.\<close>

definition about_url :: "subscription \<Rightarrow> py_exception + string" where
  "about_url sub =
     (case normalise_channel_url (url sub) (channel_id sub) of
        Inl exc \<Rightarrow> Inl exc
      | Inr None \<Rightarrow> Inl ValueError
      | Inr (Some base_url) \<Rightarrow>
          if base_url = [] then Inl ValueError else Inr (base_url @ ''/about''))"

record result =
  channel_title :: string
  channel_url :: string
  links :: "string list"

text \<open>
  The world outside the loop, by the number of the round (from 1): what the request
  through the proxy returns or raises, and the exception, if any, raised at the other
  points where a round calls out: the progress line at its start, the warning of a skip,
  the update callback with the results so far, and the progress line and the sleep at
  its end. An interrupt signal is the exception \<open>KeyboardInterrupt\<close> at one of these points.
  With no progress output, no callback and no delay the point raises nothing.
\<close>

record world =
  announce :: "nat \<Rightarrow> py_exception option"
  warn :: "nat \<Rightarrow> py_exception option"
  urlopen :: "nat \<Rightarrow> string \<Rightarrow> py_exception + string"
  on_update :: "nat \<Rightarrow> result list \<Rightarrow> py_exception option"
  pause :: "nat \<Rightarrow> py_exception option"

text \<open>The exceptions that \<open>except Exception\<close> catches.\<close>

definition is_Exception :: "py_exception \<Rightarrow> bool" where
  "is_Exception exc \<longleftrightarrow> exc \<noteq> KeyboardInterrupt \<and> exc \<noteq> SystemExit"

definition fetch_about_page :: "world \<Rightarrow> nat \<Rightarrow> string \<Rightarrow> py_exception + string" where
  "fetch_about_page w index about = urlopen w index (PROXY_PREFIX @ about)"

text \<open>\<open>lowered_filters\<close>: \<open>None\<close> when no filter or an empty list of filters is given.\<close>

definition lowered :: "string list option \<Rightarrow> string list option" where
  "lowered url_filters =
     (case url_filters of
        None \<Rightarrow> None
      | Some fs \<Rightarrow> if fs = [] then None else Some (map lower fs))"

definition apply_filters :: "string list option \<Rightarrow> string list \<Rightarrow> string list" where
  "apply_filters lowered_filters found =
     (case lowered_filters of
        None \<Rightarrow> found
      | Some fs \<Rightarrow>
          filter (\<lambda>link. list_ex (\<lambda>filter_value. contains filter_value (lower link)) fs) found)"

text \<open>\<open>a or b\<close> for an optional string \<open>a\<close>.\<close>

definition py_or :: "string option \<Rightarrow> string \<Rightarrow> string" where
  "py_or a b = (case a of None \<Rightarrow> b | Some v \<Rightarrow> if v = [] then b else v)"

text \<open>
  One round of the loop: it ends normally (also by \<open>continue\<close>) or with an exception,
  in both cases with the results collected so far.
\<close>

datatype round_outcome = Continue "result list" | Raised py_exception "result list"

definition skip_round :: "world \<Rightarrow> nat \<Rightarrow> result list \<Rightarrow> round_outcome" where
  "skip_round w index results =
     (case warn w index of Some exc \<Rightarrow> Raised exc results | None \<Rightarrow> Continue results)"

definition scrape_round ::
  "world \<Rightarrow> string list option \<Rightarrow> nat \<Rightarrow> subscription \<Rightarrow> result list \<Rightarrow> round_outcome" where
  "scrape_round w lowered_filters index sub results =
     (case announce w index of
        Some exc \<Rightarrow> Raised exc results
      | None \<Rightarrow>
          (case about_url sub of
             Inl exc \<Rightarrow>
               if exc = ValueError then skip_round w index results else Raised exc results
           | Inr about \<Rightarrow>
               (case fetch_about_page w index about of
                  Inl exc \<Rightarrow>
                    if is_Exception exc then skip_round w index results
                    else Raised exc results
                | Inr page_text \<Rightarrow>
                    (case parse_channel_links page_text of
                       Inl exc \<Rightarrow> Raised exc results
                     | Inr found \<Rightarrow>
                         (case normalise_channel_url (url sub) (channel_id sub) of
                            Inl exc \<Rightarrow> Raised exc results
                          | Inr canonical_url \<Rightarrow>
                              (let results1 = results @
                                     [\<lparr>channel_title = title sub,
                                       channel_url = py_or canonical_url (url sub),
                                       links = apply_filters lowered_filters found\<rparr>]
                               in case on_update w index results1 of
                                    Some exc \<Rightarrow> Raised exc results1
                                  | None \<Rightarrow>
                                      (case pause w index of
                                         Some exc \<Rightarrow> Raised exc results1
                                       | None \<Rightarrow> Continue results1)))))))"

text \<open>The \<open>for\<close> loop: the rounds in order, until one raises.\<close>

fun for_loop ::
  "world \<Rightarrow> string list option \<Rightarrow> nat \<Rightarrow> subscription list \<Rightarrow> result list \<Rightarrow> round_outcome" where
  "for_loop w lowered_filters index [] results = Continue results"
| "for_loop w lowered_filters index (sub # rest) results =
     (case scrape_round w lowered_filters index sub results of
        Continue results1 \<Rightarrow> for_loop w lowered_filters (Suc index) rest results1
      | Raised exc results1 \<Rightarrow> Raised exc results1)"

text \<open>
  \<open>scrape_links\<close>: the loop inside \<open>try\<close>; \<open>KeyboardInterrupt\<close> is caught and the results
  are returned, any other exception leaves the function.
\<close>

definition scrape_links ::
  "world \<Rightarrow> subscription list \<Rightarrow> string list option \<Rightarrow> py_exception + result list" where
  "scrape_links w subscriptions url_filters =
     (case for_loop w (lowered url_filters) 1 subscriptions [] of
        Continue results \<Rightarrow> Inr results
      | Raised exc results \<Rightarrow> if exc = KeyboardInterrupt then Inr results else Inl exc)"

subsection \<open>The exceptions of the normaliser\<close>

lemma urlsplit_Inl: "urlsplit u s = Inl exc \<Longrightarrow> exc = ValueError"
  by (auto simp: urlsplit_def Let_def split: prod.splits if_splits option.splits)

lemma urlparse_Inl: "urlparse u s = Inl exc \<Longrightarrow> exc = ValueError"
  by (auto simp: urlparse_def split: sum.splits if_splits prod.splits dest: urlsplit_Inl)

lemma urljoin_Inl: "urljoin b u = Inl exc \<Longrightarrow> exc = ValueError"
  by (auto simp: urljoin_def Let_def split: sum.splits if_splits dest: urlparse_Inl)

lemma resolved_parse_Inl: "resolved_parse u = Inl exc \<Longrightarrow> exc = ValueError"
  by (auto simp: resolved_parse_def Let_def split: sum.splits if_splits
      dest: urlparse_Inl urljoin_Inl)

lemma normalise_channel_url_Inl:
  "normalise_channel_url u cid = Inl exc \<Longrightarrow> exc = ValueError"
  by (auto simp: normalise_channel_url_def Let_def split: sum.splits if_splits option.splits
      dest: resolved_parse_Inl)

lemma about_url_Inl: "about_url sub = Inl exc \<Longrightarrow> exc = ValueError"
  by (auto simp: about_url_def split: sum.splits option.splits if_splits
      dest: normalise_channel_url_Inl)

lemma about_url_Inr:
  "about_url sub = Inr about \<Longrightarrow>
   \<exists>u. normalise_channel_url (url sub) (channel_id sub) = Inr (Some u) \<and> u \<noteq> [] \<and>
       about = u @ ''/about''"
  by (auto simp: about_url_def split: sum.splits option.splits if_splits)

lemma parse_channel_links_total: "\<exists>found. parse_channel_links page_text = Inr found"
  using collect_total [of page_text] parse_channel_links_eq by blast

subsection \<open>The records of a round\<close>

fun results_of :: "round_outcome \<Rightarrow> result list" where
  "results_of (Continue results) = results"
| "results_of (Raised exc results) = results"

text \<open>The record that the round of a subscription appends, when it does.\<close>

definition record_of_round ::
  "world \<Rightarrow> string list option \<Rightarrow> nat \<Rightarrow> subscription \<Rightarrow> result \<Rightarrow> bool" where
  "record_of_round w lowered_filters index sub r \<longleftrightarrow>
     (\<exists>about page_text found u.
        about_url sub = Inr about \<and> fetch_about_page w index about = Inr page_text \<and>
        parse_channel_links page_text = Inr found \<and>
        normalise_channel_url (url sub) (channel_id sub) = Inr (Some u) \<and> u \<noteq> [] \<and>
        r = \<lparr>channel_title = title sub, channel_url = u,
              links = apply_filters lowered_filters found\<rparr>)"

lemma skip_round_results: "results_of (skip_round w i results) = results"
  by (simp add: skip_round_def split: option.splits)

lemma scrape_round_results:
  "results_of (scrape_round w lf i sub results) = results \<or>
   (\<exists>r. record_of_round w lf i sub r \<and>
        results_of (scrape_round w lf i sub results) = results @ [r])"
proof (cases "announce w i")
  case (Some exc)
  then show ?thesis by (simp add: scrape_round_def)
next
  case None
  show ?thesis
  proof (cases "about_url sub")
    case (Inl exc)
    then show ?thesis using None by (simp add: scrape_round_def skip_round_results)
  next
    case (Inr about)
    from about_url_Inr [OF Inr] obtain u
      where u: "normalise_channel_url (url sub) (channel_id sub) = Inr (Some u)" "u \<noteq> []"
      by blast
    show ?thesis
    proof (cases "fetch_about_page w i about")
      case (Inl exc)
      then show ?thesis using None Inr by (simp add: scrape_round_def skip_round_results)
    next
      case page: (Inr page_text)
      obtain found where found: "parse_channel_links page_text = Inr found"
        using parse_channel_links_total by blast
      let ?r = "\<lparr>channel_title = title sub, channel_url = u, links = apply_filters lf found\<rparr>"
      have "record_of_round w lf i sub ?r"
        unfolding record_of_round_def using Inr page found u by blast
      moreover have "results_of (scrape_round w lf i sub results) = results @ [?r]"
        using None Inr page found u
        by (simp add: scrape_round_def py_or_def Let_def split: option.splits)
      ultimately show ?thesis by blast
    qed
  qed
qed

lemma for_loop_records:
  "r \<in> set (results_of (for_loop w lf i subs results)) \<Longrightarrow>
   r \<in> set results \<or> (\<exists>j < length subs. record_of_round w lf (i + j) (subs ! j) r)"
proof (induction subs arbitrary: i results)
  case Nil
  then show ?case by simp
next
  case (Cons sub rest)
  let ?o = "scrape_round w lf i sub results"
  have step: "r \<in> set (results_of ?o) \<Longrightarrow>
      r \<in> set results \<or> record_of_round w lf i sub r"
    using scrape_round_results [of w lf i sub results] by auto
  show ?case
  proof (cases ?o)
    case (Raised exc results1)
    then have "r \<in> set (results_of ?o)" using Cons.prems by simp
    from step [OF this] show ?thesis by force
  next
    case (Continue results1)
    then have "r \<in> set (results_of (for_loop w lf (Suc i) rest results1))"
      using Cons.prems by simp
    from Cons.IH [OF this] show ?thesis
    proof
      assume "r \<in> set results1"
      then have "r \<in> set (results_of ?o)" using Continue by simp
      from step [OF this] show ?thesis by force
    next
      assume "\<exists>j<length rest. record_of_round w lf (Suc i + j) (rest ! j) r"
      then obtain j where "j < length rest" "record_of_round w lf (Suc i + j) (rest ! j) r"
        by blast
      then have "Suc j < length (sub # rest) \<and>
          record_of_round w lf (i + Suc j) ((sub # rest) ! Suc j) r" by simp
      then show ?thesis by blast
    qed
  qed
qed

lemma scrape_links_results:
  "scrape_links w subs fs = Inr rs \<Longrightarrow> rs = results_of (for_loop w (lowered fs) 1 subs [])"
  by (auto simp: scrape_links_def split: round_outcome.splits if_splits)

lemma scrape_links_records:
  assumes "scrape_links w subs fs = Inr rs" "r \<in> set rs"
  shows "\<exists>j < length subs. record_of_round w (lowered fs) (Suc j) (subs ! j) r"
  using for_loop_records [of r w "lowered fs" 1 subs "[]"] scrape_links_results [OF assms(1)] assms(2)
  by simp

subsection \<open>A run for the examples\<close>

text \<open>
  A world with no progress output, callback or delay, where every request returns the
  same page with two links, but the second request fails and the fourth is interrupted.
\<close>

definition example_page :: string where
  "example_page = ''x https://www.youtube.com/redirect?event=channel_header&q=https%3A%2F%2FTwitter.com%2Ffoo y https://www.youtube.com/redirect?q=https%3A%2F%2Fexample.com''"

definition example_world :: world where
  "example_world =
     \<lparr>announce = (\<lambda>index. None), warn = (\<lambda>index. None),
      urlopen = (\<lambda>index target.
         if index = 2 then Inl (OtherException ''URLError'')
         else if index = 4 then Inl KeyboardInterrupt
         else Inr example_page),
      on_update = (\<lambda>index results. None), pause = (\<lambda>index. None)\<rparr>"

definition example_subscriptions :: "subscription list" where
  "example_subscriptions =
     [\<lparr>title = ''A'', url = ''https://www.youtube.com/c/a/about'', channel_id = None\<rparr>,
      \<lparr>title = ''B'', url = ''https://www.youtube.com/c/b'', channel_id = None\<rparr>,
      \<lparr>title = ''C'', url = ''https://example.com/c'', channel_id = None\<rparr>,
      \<lparr>title = ''D'', url = ''https://www.youtube.com/c/d'', channel_id = Some ''UCd''\<rparr>,
      \<lparr>title = ''E'', url = ''https://www.youtube.com/c/e'', channel_id = None\<rparr>]"

subsection \<open>The filter\<close>

text \<open>The links kept for the filters given: all of them with no filter, else those that
  contain, in lower case, a filter term in lower case.\<close>

definition kept_links :: "string list option \<Rightarrow> string list \<Rightarrow> string list" where
  "kept_links url_filters found =
     (case url_filters of
        None \<Rightarrow> found
      | Some fs \<Rightarrow>
          if fs = [] then found
          else filter (\<lambda>link. \<exists>f \<in> set fs. contains (lower f) (lower link)) found)"

lemma apply_filters_lowered: "apply_filters (lowered url_filters) found = kept_links url_filters found"
  by (auto simp: apply_filters_def lowered_def kept_links_def list_ex_iff
      split: option.splits intro!: filter_cong)

text \<open>
  C8. Every record that \<open>scrape_links\<close> returns is the record of a subscription whose page
  was fetched, and its links are the links parsed from that page that the filter keeps,
  in their order: with a list of filters that is not empty, a parsed link is among them
  iff, in lower case, it contains one of the filter terms in lower case; with no filter
  (or an empty list) all parsed links are kept.
\<close>

theorem scrape_links_filter:
  "scrape_links w subs url_filters = Inr rs \<and> r \<in> set rs \<longrightarrow>
     (\<exists>j about page_text found.
        j < length subs \<and> about_url (subs ! j) = Inr about \<and>
        fetch_about_page w (Suc j) about = Inr page_text \<and>
        parse_channel_links page_text = Inr found \<and>
        channel_title r = title (subs ! j) \<and>
        links r = kept_links url_filters found \<and>
        (url_filters = None \<or> url_filters = Some [] \<longrightarrow> links r = found) \<and>
        (url_filters = Some fs \<and> fs \<noteq> [] \<longrightarrow>
           (link \<in> set (links r) \<longleftrightarrow>
              link \<in> set found \<and> (\<exists>f \<in> set fs. contains (lower f) (lower link)))))"
proof
  assume a: "scrape_links w subs url_filters = Inr rs \<and> r \<in> set rs"
  then obtain j where j: "j < length subs"
    and rec: "record_of_round w (lowered url_filters) (Suc j) (subs ! j) r"
    using scrape_links_records by blast
  from rec obtain about page_text found u where
    f: "about_url (subs ! j) = Inr about" "fetch_about_page w (Suc j) about = Inr page_text"
       "parse_channel_links page_text = Inr found"
    and r: "r = \<lparr>channel_title = title (subs ! j), channel_url = u,
              links = apply_filters (lowered url_filters) found\<rparr>"
    unfolding record_of_round_def by blast
  have l: "links r = kept_links url_filters found" using r by (simp add: apply_filters_lowered)
  have t: "channel_title r = title (subs ! j)" using r by simp
  have n: "url_filters = None \<or> url_filters = Some [] \<longrightarrow> links r = found"
    using l by (auto simp: kept_links_def)
  have m: "url_filters = Some fs \<and> fs \<noteq> [] \<longrightarrow>
           (link \<in> set (links r) \<longleftrightarrow>
              link \<in> set found \<and> (\<exists>f \<in> set fs. contains (lower f) (lower link)))"
    using l by (auto simp: kept_links_def)
  from j f l t n m show "\<exists>j about page_text found.
        j < length subs \<and> about_url (subs ! j) = Inr about \<and>
        fetch_about_page w (Suc j) about = Inr page_text \<and>
        parse_channel_links page_text = Inr found \<and>
        channel_title r = title (subs ! j) \<and>
        links r = kept_links url_filters found \<and>
        (url_filters = None \<or> url_filters = Some [] \<longrightarrow> links r = found) \<and>
        (url_filters = Some fs \<and> fs \<noteq> [] \<longrightarrow>
           (link \<in> set (links r) \<longleftrightarrow>
              link \<in> set found \<and> (\<exists>f \<in> set fs. contains (lower f) (lower link))))"
    by blast
qed

theorem scrape_links_filter_witness:
  "scrape_links example_world example_subscriptions (Some [''TWITTER'']) =
     Inr [\<lparr>channel_title = ''A'', channel_url = ''https://www.youtube.com/c/a'',
           links = [''https://Twitter.com/foo'']\<rparr>] \<and>
   (\<exists>j about page_text found.
      j < length example_subscriptions \<and>
      fetch_about_page example_world (Suc j) about = Inr page_text \<and>
      parse_channel_links page_text = Inr found \<and>
      [''https://Twitter.com/foo''] = kept_links (Some [''TWITTER'']) found \<and>
      (''https://example.com'' \<in> set [''https://Twitter.com/foo''] \<longleftrightarrow>
         ''https://example.com'' \<in> set found \<and>
         (\<exists>f \<in> set [''TWITTER'']. contains (lower f) (lower ''https://example.com''))))"
proof -
  let ?r = "\<lparr>channel_title = ''A'', channel_url = ''https://www.youtube.com/c/a'',
           links = [''https://Twitter.com/foo'']\<rparr>"
  have run: "scrape_links example_world example_subscriptions (Some [''TWITTER'']) = Inr [?r]"
    by code_simp
  from scrape_links_filter [of example_world example_subscriptions "Some [''TWITTER'']" "[?r]" ?r
      "[''TWITTER'']" "''https://example.com''"] run
  have "\<exists>j about page_text found.
      j < length example_subscriptions \<and>
      fetch_about_page example_world (Suc j) about = Inr page_text \<and>
      parse_channel_links page_text = Inr found \<and>
      [''https://Twitter.com/foo''] = kept_links (Some [''TWITTER'']) found \<and>
      (''https://example.com'' \<in> set [''https://Twitter.com/foo''] \<longleftrightarrow>
         ''https://example.com'' \<in> set found \<and>
         (\<exists>f \<in> set [''TWITTER'']. contains (lower f) (lower ''https://example.com'')))"
    by (simp del: contains.simps) blast
  with run show ?thesis by blast
qed

subsection \<open>The channel URL of a record\<close>

text \<open>
  C10. In every record that the loop has appended (returned by \<open>scrape_links\<close> or held when
  an exception left the loop) the channel URL is the canonical URL that
  \<open>normalise_channel_url\<close> returns for the URL and channel id of the subscription of that
  round, and it is not empty; whenever the about URL of a subscription is computed, the
  normaliser has returned such a URL, so \<open>canonical_url or subscription.url\<close> is the
  canonical URL and never the raw URL of the subscription.
\<close>

theorem scrape_links_channel_url:
  "(r \<in> set (results_of (for_loop w (lowered url_filters) 1 subs [])) \<longrightarrow>
      (\<exists>j. j < length subs \<and> channel_title r = title (subs ! j) \<and>
           normalise_channel_url (url (subs ! j)) (channel_id (subs ! j)) =
             Inr (Some (channel_url r)) \<and>
           channel_url r \<noteq> [])) \<and>
   (scrape_links w subs url_filters = Inr rs \<and> r \<in> set rs \<longrightarrow>
      (\<exists>j. j < length subs \<and> channel_title r = title (subs ! j) \<and>
           normalise_channel_url (url (subs ! j)) (channel_id (subs ! j)) =
             Inr (Some (channel_url r)) \<and>
           channel_url r \<noteq> [])) \<and>
   (about_url sub = Inr about \<longrightarrow>
      (\<exists>u. normalise_channel_url (url sub) (channel_id sub) = Inr (Some u) \<and> u \<noteq> [] \<and>
           about = u @ ''/about'' \<and> py_or (Some u) (url sub) = u))"
proof (intro conjI impI)
  assume "r \<in> set (results_of (for_loop w (lowered url_filters) 1 subs []))"
  then obtain j where j: "j < length subs"
    and rec: "record_of_round w (lowered url_filters) (Suc j) (subs ! j) r"
    using for_loop_records [of r w "lowered url_filters" 1 subs "[]"] by auto
  then show "\<exists>j. j < length subs \<and> channel_title r = title (subs ! j) \<and>
           normalise_channel_url (url (subs ! j)) (channel_id (subs ! j)) =
             Inr (Some (channel_url r)) \<and>
           channel_url r \<noteq> []"
    unfolding record_of_round_def by auto
next
  assume "scrape_links w subs url_filters = Inr rs \<and> r \<in> set rs"
  then obtain j where j: "j < length subs"
    and rec: "record_of_round w (lowered url_filters) (Suc j) (subs ! j) r"
    using scrape_links_records by blast
  then show "\<exists>j. j < length subs \<and> channel_title r = title (subs ! j) \<and>
           normalise_channel_url (url (subs ! j)) (channel_id (subs ! j)) =
             Inr (Some (channel_url r)) \<and>
           channel_url r \<noteq> []"
    unfolding record_of_round_def by auto
next
  assume "about_url sub = Inr about"
  from about_url_Inr [OF this]
  show "\<exists>u. normalise_channel_url (url sub) (channel_id sub) = Inr (Some u) \<and> u \<noteq> [] \<and>
           about = u @ ''/about'' \<and> py_or (Some u) (url sub) = u"
    by (auto simp: py_or_def)
qed

theorem scrape_links_channel_url_witness:
  "scrape_links example_world example_subscriptions None =
     Inr [\<lparr>channel_title = ''A'', channel_url = ''https://www.youtube.com/c/a'',
           links = [''https://Twitter.com/foo'', ''https://example.com'']\<rparr>] \<and>
   about_url \<lparr>title = ''A'', url = ''https://www.youtube.com/c/a/about'', channel_id = None\<rparr> =
     Inr ''https://www.youtube.com/c/a/about'' \<and>
   (\<exists>j. j < length example_subscriptions \<and>
        ''A'' = title (example_subscriptions ! j) \<and>
        normalise_channel_url (url (example_subscriptions ! j))
          (channel_id (example_subscriptions ! j)) = Inr (Some ''https://www.youtube.com/c/a'')) \<and>
   (\<exists>u. normalise_channel_url ''https://www.youtube.com/c/a/about'' None = Inr (Some u) \<and>
        u \<noteq> [] \<and> ''https://www.youtube.com/c/a/about'' = u @ ''/about'')"
proof -
  let ?r = "\<lparr>channel_title = ''A'', channel_url = ''https://www.youtube.com/c/a'',
           links = [''https://Twitter.com/foo'', ''https://example.com'']\<rparr>"
  let ?s = "\<lparr>title = ''A'', url = ''https://www.youtube.com/c/a/about'', channel_id = None\<rparr>"
  have run: "scrape_links example_world example_subscriptions None = Inr [?r]"
    by code_simp
  have ab: "about_url ?s = Inr ''https://www.youtube.com/c/a/about''"
    by code_simp
  note t = scrape_links_channel_url [of ?r example_world None example_subscriptions "[?r]" ?s
      "''https://www.youtube.com/c/a/about''"]
  from t run have 1: "\<exists>j. j < length example_subscriptions \<and>
        ''A'' = title (example_subscriptions ! j) \<and>
        normalise_channel_url (url (example_subscriptions ! j))
          (channel_id (example_subscriptions ! j)) = Inr (Some ''https://www.youtube.com/c/a'')"
    by simp
  from t ab have 2: "\<exists>u. normalise_channel_url ''https://www.youtube.com/c/a/about'' None = Inr (Some u) \<and>
        u \<noteq> [] \<and> ''https://www.youtube.com/c/a/about'' = u @ ''/about''"
    by simp
  from run ab 1 2 show ?thesis by blast
qed

subsection \<open>Failures of single subscriptions\<close>

text \<open>The links of a page; the parser returns a list for every page.\<close>

definition links_of :: "string \<Rightarrow> string list" where
  "links_of page_text = (case parse_channel_links page_text of Inr found \<Rightarrow> found | Inl exc \<Rightarrow> [])"

text \<open>
  The records expected of a run in which only requests fail: one for every subscription
  whose about URL is resolved and whose page is fetched, in the order of the input.
\<close>

fun expected_records ::
  "world \<Rightarrow> string list option \<Rightarrow> nat \<Rightarrow> subscription list \<Rightarrow> result list" where
  "expected_records w lowered_filters index [] = []"
| "expected_records w lowered_filters index (sub # rest) =
     (case about_url sub of
        Inl exc \<Rightarrow> []
      | Inr about \<Rightarrow>
          (case fetch_about_page w index about of
             Inl exc \<Rightarrow> []
           | Inr page_text \<Rightarrow>
               [\<lparr>channel_title = title sub,
                 channel_url = take (length about - length ''/about'') about,
                 links = apply_filters lowered_filters (links_of page_text)\<rparr>]))
     @ expected_records w lowered_filters (Suc index) rest"

text \<open>A world in which nothing but a request raises, and a request raises no
  \<open>KeyboardInterrupt\<close> or \<open>SystemExit\<close>.\<close>

definition only_requests_fail :: "world \<Rightarrow> bool" where
  "only_requests_fail w \<longleftrightarrow>
     (\<forall>index. announce w index = None \<and> warn w index = None \<and> pause w index = None \<and>
        (\<forall>results. on_update w index results = None)) \<and>
     (\<forall>index target exc. urlopen w index target = Inl exc \<longrightarrow> is_Exception exc)"

lemma scrape_round_only_requests_fail:
  assumes "only_requests_fail w"
  shows "scrape_round w lf i sub results =
     Continue (results @ expected_records w lf i [sub])"
proof -
  from assms have q: "announce w i = None" "warn w i = None" "pause w i = None"
    "\<And>rs. on_update w i rs = None"
    and e: "\<And>target exc. urlopen w i target = Inl exc \<Longrightarrow> is_Exception exc"
    unfolding only_requests_fail_def by blast+
  show ?thesis
  proof (cases "about_url sub")
    case (Inl exc)
    then have "exc = ValueError" by (rule about_url_Inl)
    then show ?thesis using Inl q by (simp add: scrape_round_def skip_round_def)
  next
    case (Inr about)
    from about_url_Inr [OF Inr] obtain u
      where u: "normalise_channel_url (url sub) (channel_id sub) = Inr (Some u)" "u \<noteq> []"
        "about = u @ ''/about''"
      by blast
    show ?thesis
    proof (cases "fetch_about_page w i about")
      case (Inl exc)
      then have "is_Exception exc" using e by (simp add: fetch_about_page_def)
      then show ?thesis using Inl Inr q by (simp add: scrape_round_def skip_round_def)
    next
      case page: (Inr page_text)
      obtain found where found: "parse_channel_links page_text = Inr found"
        using parse_channel_links_total by blast
      then have l: "links_of page_text = found" by (simp add: links_of_def)
      show ?thesis using Inr page found u q l
        by (simp add: scrape_round_def py_or_def Let_def)
    qed
  qed
qed

lemma expected_records_Cons:
  "expected_records w lf i (sub # rest) =
   expected_records w lf i [sub] @ expected_records w lf (Suc i) rest"
  by simp

lemma for_loop_only_requests_fail:
  assumes "only_requests_fail w"
  shows "for_loop w lf i subs results = Continue (results @ expected_records w lf i subs)"
proof (induction subs arbitrary: i results)
  case Nil
  then show ?case by simp
next
  case (Cons sub rest)
  have "for_loop w lf i (sub # rest) results =
      for_loop w lf (Suc i) rest (results @ expected_records w lf i [sub])"
    by (simp add: scrape_round_only_requests_fail [OF assms] del: expected_records.simps)
  also have "\<dots> = Continue ((results @ expected_records w lf i [sub]) @
      expected_records w lf (Suc i) rest)"
    by (rule Cons.IH)
  also have "\<dots> = Continue (results @ expected_records w lf i (sub # rest))"
    by (subst (2) expected_records_Cons) simp
  finally show ?case .
qed

text \<open>
  C7. In a run where nothing but requests raise, and they raise exceptions that
  \<open>except Exception\<close> catches, \<open>scrape_links\<close> does not raise: it returns one record for
  every subscription whose about URL is resolved and whose page is fetched, in the order
  of the input; a subscription whose URL is not resolved or whose request raises adds no
  record, and the subscriptions after it are processed as if it were not there.
\<close>

theorem scrape_links_skips_failures:
  assumes "only_requests_fail w"
  shows "scrape_links w subs url_filters = Inr (expected_records w (lowered url_filters) 1 subs) \<and>
    (about_url sub = Inl exc \<or>
     (\<exists>about exc'. about_url sub = Inr about \<and> fetch_about_page w (Suc (length before)) about = Inl exc')
     \<longrightarrow>
       scrape_links w (before @ sub # rest) url_filters =
         Inr (expected_records w (lowered url_filters) 1 before @
              expected_records w (lowered url_filters) (Suc (Suc (length before))) rest))"
proof
  show run: "scrape_links w subs url_filters = Inr (expected_records w (lowered url_filters) 1 subs)"
    for subs
    by (simp add: scrape_links_def for_loop_only_requests_fail [OF assms])
  have split: "expected_records w lf i (xs @ ys) =
      expected_records w lf i xs @ expected_records w lf (i + length xs) ys" for lf i xs ys
    by (induction xs arbitrary: i) auto
  show "about_url sub = Inl exc \<or>
     (\<exists>about exc'. about_url sub = Inr about \<and> fetch_about_page w (Suc (length before)) about = Inl exc')
     \<longrightarrow>
       scrape_links w (before @ sub # rest) url_filters =
         Inr (expected_records w (lowered url_filters) 1 before @
              expected_records w (lowered url_filters) (Suc (Suc (length before))) rest)"
  proof
    assume "about_url sub = Inl exc \<or>
     (\<exists>about exc'. about_url sub = Inr about \<and> fetch_about_page w (Suc (length before)) about = Inl exc')"
    then have "expected_records w (lowered url_filters) (Suc (length before)) [sub] = []"
      by auto
    then have "expected_records w (lowered url_filters) 1 (before @ sub # rest) =
        expected_records w (lowered url_filters) 1 before @
        expected_records w (lowered url_filters) (Suc (Suc (length before))) rest"
      unfolding split expected_records_Cons [of _ _ _ sub rest] by simp
    then show "scrape_links w (before @ sub # rest) url_filters =
         Inr (expected_records w (lowered url_filters) 1 before @
              expected_records w (lowered url_filters) (Suc (Suc (length before))) rest)"
      using run by simp
  qed
qed

text \<open>The world of the examples without the interrupt: only the second request fails.\<close>

definition failing_world :: world where
  "failing_world =
     example_world\<lparr>urlopen := (\<lambda>index target.
        if index = 2 then Inl (OtherException ''URLError'') else Inr example_page)\<rparr>"

theorem scrape_links_skips_failures_witness:
  "only_requests_fail failing_world \<and>
   about_url (example_subscriptions ! 2) = Inl ValueError \<and>
   fetch_about_page failing_world 2 ''https://www.youtube.com/c/b/about'' =
     Inl (OtherException ''URLError'') \<and>
   scrape_links failing_world example_subscriptions None =
     Inr [\<lparr>channel_title = ''A'', channel_url = ''https://www.youtube.com/c/a'',
           links = [''https://Twitter.com/foo'', ''https://example.com'']\<rparr>,
          \<lparr>channel_title = ''D'', channel_url = ''https://www.youtube.com/channel/UCd'',
           links = [''https://Twitter.com/foo'', ''https://example.com'']\<rparr>,
          \<lparr>channel_title = ''E'', channel_url = ''https://www.youtube.com/c/e'',
           links = [''https://Twitter.com/foo'', ''https://example.com'']\<rparr>] \<and>
   scrape_links failing_world
     (take 2 example_subscriptions @ example_subscriptions ! 2 # drop 3 example_subscriptions)
     None =
     Inr (expected_records failing_world (lowered None) 1 (take 2 example_subscriptions) @
          expected_records failing_world (lowered None) 4 (drop 3 example_subscriptions))"
proof -
  have h: "only_requests_fail failing_world"
    by (auto simp: only_requests_fail_def failing_world_def example_world_def is_Exception_def
        split: if_splits)
  have a: "about_url (example_subscriptions ! 2) = Inl ValueError" by code_simp
  have f: "fetch_about_page failing_world 2 ''https://www.youtube.com/c/b/about'' =
     Inl (OtherException ''URLError'')" by code_simp
  have e: "expected_records failing_world (lowered None) 1 example_subscriptions =
     [\<lparr>channel_title = ''A'', channel_url = ''https://www.youtube.com/c/a'',
           links = [''https://Twitter.com/foo'', ''https://example.com'']\<rparr>,
          \<lparr>channel_title = ''D'', channel_url = ''https://www.youtube.com/channel/UCd'',
           links = [''https://Twitter.com/foo'', ''https://example.com'']\<rparr>,
          \<lparr>channel_title = ''E'', channel_url = ''https://www.youtube.com/c/e'',
           links = [''https://Twitter.com/foo'', ''https://example.com'']\<rparr>]"
    by code_simp
  have l: "Suc (Suc (length (take 2 example_subscriptions))) = 4"
    by (simp add: example_subscriptions_def)
  note t = scrape_links_skips_failures [OF h]
  have 1: "scrape_links failing_world example_subscriptions None =
     Inr (expected_records failing_world (lowered None) 1 example_subscriptions)"
    using t [of example_subscriptions None] by blast
  have 2: "scrape_links failing_world
     (take 2 example_subscriptions @ example_subscriptions ! 2 # drop 3 example_subscriptions)
     None =
     Inr (expected_records failing_world (lowered None) 1 (take 2 example_subscriptions) @
          expected_records failing_world (lowered None) 4 (drop 3 example_subscriptions))"
    using t [of example_subscriptions None "example_subscriptions ! 2" ValueError
        "take 2 example_subscriptions" "drop 3 example_subscriptions"] a
    unfolding l by blast
  from h a f 1 2 show ?thesis unfolding e by blast
qed

subsection \<open>Interruption\<close>






end
